theory Spec2Isabelle
  imports Main
begin

section \<open>Values exchanged between the page, the pool and the workers\<close>

text \<open>
  Messages are plain JavaScript objects. An object is a list of its fields; \<open>NewError v\<close>
  stands for \<^verbatim>\<open>new Error(v)\<close>, \<open>Buffer\<close> for an ArrayBuffer.
\<close>

datatype jsval =
    Undefined
  | Num int
  | Str string
  | Buffer "nat list"
  | Obj "(string \<times> jsval) list"
  | NewError jsval

type_synonym jsobj = "(string \<times> jsval) list"

text \<open>\<^verbatim>\<open>data.k\<close>: a missing property reads as \<^verbatim>\<open>undefined\<close>.\<close>

definition field :: "jsobj \<Rightarrow> string \<Rightarrow> jsval" where
  "field data k = (case map_of data k of Some v \<Rightarrow> v | None \<Rightarrow> Undefined)"

fun truthy :: "jsval \<Rightarrow> bool" where
  "truthy Undefined = False"
| "truthy (Num n) = (n \<noteq> 0)"
| "truthy (Str s) = (s \<noteq> [])"
| "truthy v = True"

section \<open>The worker pool (worker-pool.js)\<close>

subsection \<open>Objects\<close>

text \<open>
  A \<^verbatim>\<open>Worker\<close> object is known by its reference (the order of construction); the pool
  sets \<^verbatim>\<open>id\<close> and \<^verbatim>\<open>busy\<close> on it, and \<open>terminated\<close> records \<^verbatim>\<open>worker.terminate()\<close>.
  A task id is the string \<^verbatim>\<open>task_${Date.now()}_${random}\<close>.
  The task's \<^verbatim>\<open>resolve\<close> and \<^verbatim>\<open>reject\<close> are those of the promise \<open>promise\<close>.
\<close>

type_synonym wref = nat
type_synonym tid = string

record worker_obj =
  worker_id :: nat
  busy :: bool
  terminated :: bool

record task =
  task_id :: tid
  imageUrl :: jsval
  promise :: nat
  onProgress :: "nat option"
  worker :: "wref option"

datatype settlement = Resolve jsval | Reject jsval

text \<open>
  The fields of the class, then what the pool does to its surroundings: the worker objects
  it has constructed, the messages posted to them, the calls of \<^verbatim>\<open>resolve\<close>/\<^verbatim>\<open>reject\<close>,
  the calls of progress callbacks, the restart timers set, and the promises created.
  \<open>workers\<close> is a JavaScript array: \<open>None\<close> is a hole.
\<close>

record pool =
  maxWorkers :: int
  workers :: "wref option list"
  taskQueue :: "task list"
  activeTasks :: "(tid \<times> task) list"
  readyWorkers :: "wref list"
  isInitializing :: bool
  objects :: "worker_obj list"
  posted :: "(wref \<times> jsobj) list"
  settled :: "(nat \<times> settlement) list"
  progress :: "(nat \<times> jsobj) list"
  timers :: "wref list"
  promises :: nat

subsection \<open>Map, Set and Array operations\<close>

text \<open>A \<^verbatim>\<open>Map\<close> keeps insertion order; \<^verbatim>\<open>set\<close> on a present key replaces the value in place.\<close>

fun Map_set :: "'k \<Rightarrow> 'v \<Rightarrow> ('k \<times> 'v) list \<Rightarrow> ('k \<times> 'v) list" where
  "Map_set k v [] = [(k, v)]"
| "Map_set k v ((k', v') # es) = (if k' = k then (k, v) # es else (k', v') # Map_set k v es)"

definition Map_delete :: "'k \<Rightarrow> ('k \<times> 'v) list \<Rightarrow> ('k \<times> 'v) list" where
  "Map_delete k es = filter (\<lambda>e. fst e \<noteq> k) es"

definition Set_add :: "'a \<Rightarrow> 'a list \<Rightarrow> 'a list" where
  "Set_add x xs = (if x \<in> set xs then xs else xs @ [x])"

definition Set_delete :: "'a \<Rightarrow> 'a list \<Rightarrow> 'a list" where
  "Set_delete x xs = filter (\<lambda>y. y \<noteq> x) xs"

text \<open>\<^verbatim>\<open>a[i] = v\<close>: writing past the end extends the array, leaving holes.\<close>

definition Array_put :: "nat \<Rightarrow> 'a \<Rightarrow> 'a option list \<Rightarrow> 'a option list" where
  "Array_put i v xs =
     (if i < length xs then xs[i := Some v] else xs @ replicate (i - length xs) None @ [Some v])"

subsection \<open>Promises and worker objects\<close>

definition resolve :: "task \<Rightarrow> jsval \<Rightarrow> pool \<Rightarrow> pool" where
  "resolve t v s = s\<lparr>settled := settled s @ [(promise t, Resolve v)]\<rparr>"

definition reject :: "task \<Rightarrow> jsval \<Rightarrow> pool \<Rightarrow> pool" where
  "reject t v s = s\<lparr>settled := settled s @ [(promise t, Reject v)]\<rparr>"

text \<open>A promise settles at the first call of either function; later calls do nothing.\<close>

definition promise_state :: "pool \<Rightarrow> nat \<Rightarrow> settlement option" where
  "promise_state s p = map_of (settled s) p"

definition set_busy :: "wref \<Rightarrow> bool \<Rightarrow> pool \<Rightarrow> pool" where
  "set_busy w b s = s\<lparr>objects := (objects s)[w := (objects s ! w)\<lparr>busy := b\<rparr>]\<rparr>"

definition worker_terminate :: "wref \<Rightarrow> pool \<Rightarrow> pool" where
  "worker_terminate w s = s\<lparr>objects := (objects s)[w := (objects s ! w)\<lparr>terminated := True\<rparr>]\<rparr>"

definition postMessage :: "wref \<Rightarrow> jsobj \<Rightarrow> pool \<Rightarrow> pool" where
  "postMessage w data s = s\<lparr>posted := posted s @ [(w, data)]\<rparr>"

text \<open>\<^verbatim>\<open>new Worker(...)\<close> followed by the assignments of \<^verbatim>\<open>id\<close> and \<^verbatim>\<open>busy\<close>.\<close>

definition new_Worker :: "nat \<Rightarrow> pool \<Rightarrow> wref \<times> pool" where
  "new_Worker i s =
     (length (objects s),
      s\<lparr>objects := objects s @ [\<lparr>worker_id = i, busy = False, terminated = False\<rparr>]\<rparr>)"

subsection \<open>The methods\<close>

text \<open>\<^verbatim>\<open>Math.min(maxWorkers, navigator.hardwareConcurrency || 4)\<close>\<close>

definition constructor :: "int \<Rightarrow> nat option \<Rightarrow> pool" where
  "constructor maxW hardwareConcurrency =
     \<lparr>maxWorkers =
        min maxW (case hardwareConcurrency of
                    None \<Rightarrow> 4
                  | Some n \<Rightarrow> if n = 0 then 4 else int n),
      workers = [], taskQueue = [], activeTasks = [], readyWorkers = [],
      isInitializing = False,
      objects = [], posted = [], settled = [], progress = [], timers = [], promises = 0\<rparr>"

definition spawn :: "nat \<Rightarrow> pool \<Rightarrow> pool" where
  "spawn i s =
     (let (w, s1) = new_Worker i s;
          s2 = s1\<lparr>workers := workers s1 @ [Some w]\<rparr>
      in postMessage w [(''type'', Str ''init'')] s2)"

definition initialize :: "pool \<Rightarrow> pool" where
  "initialize s =
     (if isInitializing s then s
      else (fold spawn [0..<nat (maxWorkers s)] (s\<lparr>isInitializing := True\<rparr>))
             \<lparr>isInitializing := False\<rparr>)"

definition findTaskIdByWorker :: "pool \<Rightarrow> wref \<Rightarrow> tid option" where
  "findTaskIdByWorker s w =
     map_option fst (find (\<lambda>e. worker (snd e) = Some w) (activeTasks s))"

definition getAvailableWorker :: "pool \<Rightarrow> wref option \<times> pool" where
  "getAvailableWorker s =
     (case readyWorkers s of
        [] \<Rightarrow> (None, s)
      | w # ws \<Rightarrow> (Some w, s\<lparr>readyWorkers := Set_delete w (readyWorkers s)\<rparr>))"

definition executeTask :: "task \<Rightarrow> wref \<Rightarrow> pool \<Rightarrow> pool" where
  "executeTask t w s =
     (let s1 = set_busy w True s;
          t1 = t\<lparr>worker := Some w\<rparr>;
          s2 = s1\<lparr>activeTasks := Map_set (task_id t1) t1 (activeTasks s1)\<rparr>
      in postMessage w [(''imageUrl'', imageUrl t1),
                        (''taskId'', Str (task_id t1))] s2)"

definition processQueue :: "pool \<Rightarrow> pool" where
  "processQueue s =
     (if length (taskQueue s) = 0 \<or> length (readyWorkers s) = 0 then s
      else
        (let t = hd (taskQueue s);
             s1 = s\<lparr>taskQueue := tl (taskQueue s)\<rparr>;
             (w, s2) = getAvailableWorker s1
         in case w of
              Some w' \<Rightarrow> executeTask t w' s2
            | None \<Rightarrow> s2\<lparr>taskQueue := t # taskQueue s2\<rparr>))"

text \<open>
  \<^verbatim>\<open>now\<close> is the decimal text of \<^verbatim>\<open>Date.now()\<close> and \<^verbatim>\<open>rnd\<close> that of
  \<^verbatim>\<open>Math.random().toString(36).substr(2, 9)\<close>. The result is the promise and the new state.
\<close>

definition new_task :: "jsval \<Rightarrow> nat option \<Rightarrow> string \<Rightarrow> string \<Rightarrow> nat \<Rightarrow> task" where
  "new_task url cb now rnd p =
     \<lparr>task_id = ''task_'' @ now @ ''_'' @ rnd, imageUrl = url, promise = p,
      onProgress = cb, worker = None\<rparr>"

definition processImage :: "jsval \<Rightarrow> nat option \<Rightarrow> string \<Rightarrow> string \<Rightarrow> pool \<Rightarrow> nat \<times> pool" where
  "processImage url cb now rnd s =
     (let p = promises s;
          s1 = s\<lparr>promises := Suc p\<rparr>;
          t = new_task url cb now rnd p;
          s2 = s1\<lparr>taskQueue := taskQueue s1 @ [t]\<rparr>
      in (p, processQueue s2))"

text \<open>
  \<^verbatim>\<open>taskId && this.activeTasks.has(taskId)\<close> followed by \<^verbatim>\<open>this.activeTasks.get(taskId)\<close>:
  the id must be neither null nor the empty string, and a key of the map.
\<close>

definition bound_task :: "tid option \<Rightarrow> pool \<Rightarrow> (tid \<times> task) option" where
  "bound_task taskId s =
     (case taskId of
        None \<Rightarrow> None
      | Some k \<Rightarrow>
          if truthy (Str k) then map_option (\<lambda>t. (k, t)) (map_of (activeTasks s) k) else None)"

definition handleWorkerMessage :: "wref \<Rightarrow> jsobj \<Rightarrow> pool \<Rightarrow> pool" where
  "handleWorkerMessage w data s =
     (let taskId = findTaskIdByWorker s w;
          status = field data ''status''
      in
        if status = Str ''ready'' then
          processQueue (s\<lparr>readyWorkers := Set_add w (readyWorkers s)\<rparr>)
        else if status = Str ''complete'' \<or> status = Str ''error'' then
          (let s1 = set_busy w False s;
               s2 = s1\<lparr>readyWorkers := Set_add w (readyWorkers s1)\<rparr>;
               s3 = (case bound_task taskId s2 of
                       None \<Rightarrow> s2
                     | Some (k, t) \<Rightarrow>
                         (let s' = s2\<lparr>activeTasks := Map_delete k (activeTasks s2)\<rparr>
                          in if status = Str ''complete'' then resolve t (Obj data) s'
                             else reject t (NewError (field data ''error'')) s'))
           in processQueue s3)
        else
          (case bound_task taskId s of
             None \<Rightarrow> s
           | Some (k, t) \<Rightarrow>
               (case onProgress t of
                  None \<Rightarrow> s
                | Some cb \<Rightarrow> s\<lparr>progress := progress s @ [(cb, data)]\<rparr>)))"

text \<open>
  The loop of \<^verbatim>\<open>handleWorkerError\<close> over the entries of the map. It deletes only the entry
  it is visiting, so it visits every entry that was in the map when it began.
\<close>

fun rejectBound :: "wref \<Rightarrow> jsval \<Rightarrow> (tid \<times> task) list \<Rightarrow> pool \<Rightarrow> pool" where
  "rejectBound w err [] s = s"
| "rejectBound w err ((taskId, t) # es) s =
     rejectBound w err es
       (if findTaskIdByWorker s w = Some taskId
        then (let s1 = reject t err s in s1\<lparr>activeTasks := Map_delete taskId (activeTasks s1)\<rparr>)
        else s)"

definition handleWorkerError :: "wref \<Rightarrow> jsval \<Rightarrow> pool \<Rightarrow> pool" where
  "handleWorkerError w err s =
     (let s1 = set_busy w False s;
          s2 = s1\<lparr>readyWorkers := Set_delete w (readyWorkers s1)\<rparr>;
          s3 = rejectBound w err (activeTasks s2) s2
      in s3\<lparr>timers := timers s3 @ [w]\<rparr>)"

definition restartWorker :: "wref \<Rightarrow> pool \<Rightarrow> pool" where
  "restartWorker w s =
     (let s1 = worker_terminate w s;
          (newWorker, s2) = new_Worker (worker_id (objects s1 ! w)) s1;
          s3 = s2\<lparr>workers := Array_put (worker_id (objects s2 ! w)) newWorker (workers s2)\<rparr>
      in postMessage newWorker [(''type'', Str ''init'')] s3)"

record stats =
  totalWorkers :: nat
  readyWorkersCount :: nat
  activeTasksCount :: nat
  queuedTasks :: nat
  isInitializingNow :: bool

definition getStats :: "pool \<Rightarrow> stats" where
  "getStats s =
     \<lparr>totalWorkers = length (workers s),
      readyWorkersCount = length (readyWorkers s),
      activeTasksCount = length (activeTasks s),
      queuedTasks = length (taskQueue s),
      isInitializingNow = isInitializing s\<rparr>"

text \<open>
  \<^verbatim>\<open>terminate\<close>: the loop over \<^verbatim>\<open>this.workers\<close> calls \<^verbatim>\<open>terminate\<close> on each element; on a
  hole the element is \<^verbatim>\<open>undefined\<close> and the call throws a TypeError, which leaves the
  method with the state as it is then.
\<close>

datatype error = TypeError

fun terminateWorkers :: "wref option list \<Rightarrow> pool \<Rightarrow> (error \<times> pool) + pool" where
  "terminateWorkers [] s = Inr s"
| "terminateWorkers (None # ws) s = Inl (TypeError, s)"
| "terminateWorkers (Some w # ws) s = terminateWorkers ws (worker_terminate w s)"

definition terminate :: "pool \<Rightarrow> (error \<times> pool) + pool" where
  "terminate s =
     (let s1 = fold (\<lambda>t. reject t (NewError (Str ''Worker pool terminated''))) (taskQueue s) s;
          s2 = s1\<lparr>taskQueue := []\<rparr>;
          s3 = fold (\<lambda>t. reject t (NewError (Str ''Worker pool terminated'')))
                 (map snd (activeTasks s2)) s2;
          s4 = s3\<lparr>activeTasks := []\<rparr>
      in case terminateWorkers (workers s4) s4 of
           Inl e \<Rightarrow> Inl e
         | Inr s5 \<Rightarrow> Inr (s5\<lparr>workers := [], readyWorkers := []\<rparr>))"

subsection \<open>Runs of the pool\<close>

text \<open>
  The pool is driven by calls from the page, by the message and error events of its
  workers and by its restart timers; each runs to completion before the next.
\<close>

datatype event =
    Initialize
  | ProcessImage jsval "nat option" string string
  | WorkerMessage wref jsobj
  | WorkerError wref jsval
  | RestartTimer wref
  | Terminate

fun step :: "pool \<Rightarrow> event \<Rightarrow> pool" where
  "step s Initialize = initialize s"
| "step s (ProcessImage url cb now rnd) = snd (processImage url cb now rnd s)"
| "step s (WorkerMessage w data) = handleWorkerMessage w data s"
| "step s (WorkerError w err) = handleWorkerError w err s"
| "step s (RestartTimer w) =
     (if w \<in> set (timers s) then restartWorker w (s\<lparr>timers := remove1 w (timers s)\<rparr>) else s)"
| "step s Terminate = (case terminate s of Inl (e, s') \<Rightarrow> s' | Inr s' \<Rightarrow> s')"

definition run :: "pool \<Rightarrow> event list \<Rightarrow> pool" where
  "run s es = foldl step s es"

section \<open>The worker (worker.js)\<close>

text \<open>
  The worker's listener and \<^verbatim>\<open>PipelineSingleton.getInstance\<close> are \<^verbatim>\<open>async\<close>: each runs until
  it awaits a call of the library, and goes on when that call settles, while other
  messages may be handled in between. A \<^verbatim>\<open>pending\<close> entry is one listener suspended at an
  await: which branch of the listener it is in, and the call it awaits. The steps from
  \<^verbatim>\<open>RawImage.fromURL\<close> to \<^verbatim>\<open>blob.arrayBuffer()\<close> are the library's and the canvas's; they
  are taken as one awaited call that gives width, height and bytes, or throws. The
  library's progress callbacks during a load only post messages of status
  \<^verbatim>\<open>progress\<close> (and forward the library's own progress objects) and are left out.
\<close>

datatype branch = InitBranch | TaskBranch jsval

datatype stage = AwaitModel | AwaitProcessor | AwaitImage "nat option" "nat option"

datatype 'a awaited = Fulfilled 'a | Thrown string

record worker_state =
  model :: "nat option"
  processor :: "nat option"
  pending :: "(branch \<times> stage) list"
  outbox :: "jsobj list"
  modelLoads :: nat
  processorLoads :: nat

definition fresh_worker :: worker_state where
  "fresh_worker =
     \<lparr>model = None, processor = None, pending = [], outbox = [],
      modelLoads = 0, processorLoads = 0\<rparr>"

definition self_postMessage :: "jsobj \<Rightarrow> worker_state \<Rightarrow> worker_state" where
  "self_postMessage data u = u\<lparr>outbox := outbox u @ [data]\<rparr>"

definition info :: "string \<Rightarrow> jsobj" where
  "info m = [(''status'', Str ''progress''), (''type'', Str ''info''), (''message'', Str m)]"

text \<open>The local flag \<^verbatim>\<open>modelLoaded\<close> at each await inside the \<^verbatim>\<open>try\<close> block.\<close>

fun modelLoaded :: "stage \<Rightarrow> bool" where
  "modelLoaded AwaitModel = False"
| "modelLoaded st = True"

text \<open>The \<^verbatim>\<open>catch\<close> block of \<^verbatim>\<open>getInstance\<close>; the error is thrown again after it.\<close>

definition construction_error :: "stage \<Rightarrow> string \<Rightarrow> jsobj" where
  "construction_error st msg =
     [(''status'', Str ''error''),
      (''error'', Str (''Failed to load '' @ (if modelLoaded st then ''processor'' else ''model'')
                       @ '': '' @ msg))]"

text \<open>The \<^verbatim>\<open>catch\<close> block of the listener.\<close>

definition listener_catch :: "string \<Rightarrow> worker_state \<Rightarrow> worker_state" where
  "listener_catch msg u = self_postMessage [(''status'', Str ''error''), (''error'', Str msg)] u"

text \<open>
  \<^verbatim>\<open>getInstance\<close> up to its first await: the pair when it returns at once, or \<open>None\<close>
  when it has begun a construction and is suspended at the load of the model.
\<close>

definition getInstance :: "branch \<Rightarrow> worker_state \<Rightarrow> (nat option \<times> nat option) option \<times> worker_state" where
  "getInstance br u =
     (if model u = None \<or> processor u = None then
        (let u1 = self_postMessage
                    [(''status'', Str ''initiate''), (''message'', Str ''Starting model download...'')] u;
             u2 = self_postMessage (info ''Loading model...'') u1
         in (None, u2\<lparr>modelLoads := Suc (modelLoads u2),
                       pending := pending u2 @ [(br, AwaitModel)]\<rparr>))
      else (Some (model u, processor u), u))"

text \<open>The listener after \<^verbatim>\<open>await PipelineSingleton.getInstance(...)\<close>.\<close>

fun after_getInstance :: "branch \<Rightarrow> nat option \<times> nat option \<Rightarrow> worker_state \<Rightarrow> worker_state" where
  "after_getInstance InitBranch mp u = u"
| "after_getInstance (TaskBranch url) (m, p) u =
     u\<lparr>pending := pending u @ [(TaskBranch url, AwaitImage m p)]\<rparr>"

definition call_getInstance :: "branch \<Rightarrow> worker_state \<Rightarrow> worker_state" where
  "call_getInstance br u =
     (case getInstance br u of
        (Some mp, u') \<Rightarrow> after_getInstance br mp u'
      | (None, u') \<Rightarrow> u')"

definition listener :: "jsobj \<Rightarrow> worker_state \<Rightarrow> worker_state" where
  "listener data u =
     (if field data ''type'' = Str ''init'' then call_getInstance InitBranch u
      else if truthy (field data ''imageUrl'') then
        call_getInstance (TaskBranch (field data ''imageUrl'')) u
      else u)"

definition remove_nth :: "nat \<Rightarrow> 'a list \<Rightarrow> 'a list" where
  "remove_nth i xs = take i xs @ drop (Suc i) xs"

definition complete_message :: "int \<Rightarrow> int \<Rightarrow> nat list \<Rightarrow> jsobj" where
  "complete_message w h bytes =
     [(''status'', Str ''complete''),
      (''output'', Obj [(''width'', Num w), (''height'', Num h), (''imageData'', Buffer bytes)])]"

text \<open>\<^verbatim>\<open>AutoModel.from_pretrained\<close> of the \<open>i\<close>-th suspended listener settles.\<close>

definition model_settled :: "nat \<Rightarrow> nat awaited \<Rightarrow> worker_state \<Rightarrow> worker_state" where
  "model_settled i r u =
     (if i < length (pending u) \<and> snd (pending u ! i) = AwaitModel then
        (case r of
           Fulfilled h \<Rightarrow>
             (let u1 = u\<lparr>model := Some h\<rparr>;
                  u2 = self_postMessage (info ''Model loaded successfully! Loading processor...'') u1
              in u2\<lparr>processorLoads := Suc (processorLoads u2),
                     pending := (pending u2)[i := (fst (pending u2 ! i), AwaitProcessor)]\<rparr>)
         | Thrown msg \<Rightarrow>
             listener_catch msg
               (self_postMessage (construction_error AwaitModel msg)
                  (u\<lparr>pending := remove_nth i (pending u)\<rparr>)))
      else u)"

text \<open>\<^verbatim>\<open>AutoProcessor.from_pretrained\<close> of the \<open>i\<close>-th suspended listener settles.\<close>

definition processor_settled :: "nat \<Rightarrow> nat awaited \<Rightarrow> worker_state \<Rightarrow> worker_state" where
  "processor_settled i r u =
     (if i < length (pending u) \<and> snd (pending u ! i) = AwaitProcessor then
        (case r of
           Fulfilled h \<Rightarrow>
             (let u1 = u\<lparr>processor := Some h\<rparr>;
                  u2 = self_postMessage
                         (info ''Processor loaded successfully! Ready to process images.'') u1;
                  u3 = self_postMessage
                         [(''status'', Str ''ready''), (''message'', Str ''Model and processor are ready!'')] u2;
                  br = fst (pending u3 ! i)
              in after_getInstance br (model u3, processor u3)
                   (u3\<lparr>pending := remove_nth i (pending u3)\<rparr>))
         | Thrown msg \<Rightarrow>
             listener_catch msg
               (self_postMessage (construction_error AwaitProcessor msg)
                  (u\<lparr>pending := remove_nth i (pending u)\<rparr>)))
      else u)"

fun is_AwaitImage :: "stage \<Rightarrow> bool" where
  "is_AwaitImage (AwaitImage m p) = True"
| "is_AwaitImage st = False"

text \<open>The processing of the image by the \<open>i\<close>-th suspended listener settles.\<close>

definition image_settled :: "nat \<Rightarrow> (int \<times> int \<times> nat list) awaited \<Rightarrow> worker_state \<Rightarrow> worker_state" where
  "image_settled i r u =
     (if i < length (pending u) \<and> is_AwaitImage (snd (pending u ! i)) then
        (case r of
           Fulfilled (w, h, bytes) \<Rightarrow>
             self_postMessage (complete_message w h bytes) (u\<lparr>pending := remove_nth i (pending u)\<rparr>)
         | Thrown msg \<Rightarrow> listener_catch msg (u\<lparr>pending := remove_nth i (pending u)\<rparr>))
      else u)"

datatype worker_event =
    Message jsobj
  | ModelSettled nat "nat awaited"
  | ProcessorSettled nat "nat awaited"
  | ImageSettled nat "(int \<times> int \<times> nat list) awaited"

fun worker_step :: "worker_state \<Rightarrow> worker_event \<Rightarrow> worker_state" where
  "worker_step u (Message data) = listener data u"
| "worker_step u (ModelSettled i r) = model_settled i r u"
| "worker_step u (ProcessorSettled i r) = processor_settled i r u"
| "worker_step u (ImageSettled i r) = image_settled i r u"

definition worker_run :: "worker_state \<Rightarrow> worker_event list \<Rightarrow> worker_state" where
  "worker_run u es = foldl worker_step u es"

text \<open>A construction is in flight when some listener awaits one of the two loads.\<close>

definition loading :: "worker_state \<Rightarrow> bool" where
  "loading u = (filter (\<lambda>e. \<not> is_AwaitImage (snd e)) (pending u) \<noteq> [])"

subsection \<open>Which events can occur\<close>

text \<open>
  Message and error events reach the pool through the listeners it attached to the
  worker objects it constructed.
\<close>

fun attached :: "pool \<Rightarrow> event \<Rightarrow> bool" where
  "attached s (WorkerMessage w data) = (w < length (objects s))"
| "attached s (WorkerError w err) = (w < length (objects s))"
| "attached s e = True"

fun attached_run :: "pool \<Rightarrow> event list \<Rightarrow> bool" where
  "attached_run s [] = True"
| "attached_run s (e # es) = (attached s e \<and> attached_run (step s e) es)"

definition pool_terminated :: jsval where
  "pool_terminated = NewError (Str ''Worker pool terminated'')"

text \<open>A worker reports \<^verbatim>\<open>ready\<close> only while no task is bound to it.\<close>

fun orderly :: "pool \<Rightarrow> event \<Rightarrow> bool" where
  "orderly s (WorkerMessage w data) =
     (field data ''status'' = Str ''ready'' \<longrightarrow> findTaskIdByWorker s w = None)"
| "orderly s e = True"

fun orderly_run :: "pool \<Rightarrow> event list \<Rightarrow> bool" where
  "orderly_run s [] = True"
| "orderly_run s (e # es) = (orderly s e \<and> orderly_run (step s e) es)"

text \<open>The tasks that the calls of \<^verbatim>\<open>processImage\<close> in a run create, in the order of the calls.\<close>

fun submissions :: "pool \<Rightarrow> event list \<Rightarrow> task list" where
  "submissions s [] = []"
| "submissions s (ProcessImage url cb now rnd # es) =
     new_task url cb now rnd (promises s) # submissions (step s (ProcessImage url cb now rnd)) es"
| "submissions s (e # es) = submissions (step s e) es"

text \<open>The message that dispatches a task, and the dispatches among the posted messages.\<close>

definition dispatch_message :: "task \<Rightarrow> jsobj" where
  "dispatch_message t = [(''imageUrl'', imageUrl t), (''taskId'', Str (task_id t))]"

definition dispatches :: "pool \<Rightarrow> (wref \<times> jsval) list" where
  "dispatches s =
     map (\<lambda>m. (fst m, field (snd m) ''taskId''))
       (filter (\<lambda>m. field (snd m) ''type'' \<noteq> Str ''init'') (posted s))"

text \<open>A call \<^verbatim>\<open>processImage(url, cb)\<close> with the clock reading and the random suffix it draws.\<close>

definition request :: "jsval \<times> nat option \<times> string \<times> string \<Rightarrow> event" where
  "request r = (case r of (url, cb, now, rnd) \<Rightarrow> ProcessImage url cb now rnd)"

subsection \<open>Draining the queue as the specification words it\<close>

text \<open>
  The specification's \<^verbatim>\<open>drainQueue\<close>: while the pending queue is non-empty and at least
  one unit is ready, pop the head task, pop one ready unit, bind task and unit in the
  active map, mark the unit busy, and dispatch the task's payload to that unit.
\<close>

definition dispatch_head :: "pool \<Rightarrow> pool" where
  "dispatch_head s =
     (case taskQueue s of
        [] \<Rightarrow> s
      | t # ts \<Rightarrow>
          (case readyWorkers s of
             [] \<Rightarrow> s
           | w # ws \<Rightarrow>
               s\<lparr>taskQueue := ts,
                 readyWorkers := Set_delete w (readyWorkers s),
                 activeTasks := Map_set (task_id t) (t\<lparr>worker := Some w\<rparr>) (activeTasks s),
                 objects := (objects s)[w := (objects s ! w)\<lparr>busy := True\<rparr>],
                 posted := posted s @ [(w, dispatch_message t)]\<rparr>))"

function drainQueue :: "pool \<Rightarrow> pool" where
  "drainQueue s =
     (if taskQueue s \<noteq> [] \<and> readyWorkers s \<noteq> [] then drainQueue (dispatch_head s) else s)"
  by pat_completeness auto
termination
  by (relation "measure (\<lambda>s. length (taskQueue s))")
    (auto simp: dispatch_head_def split: list.splits)

declare drainQueue.simps [simp del]

text \<open>Nothing is left to dispatch: the queue is empty or no worker is ready.\<close>

definition drained :: "pool \<Rightarrow> bool" where
  "drained s = (taskQueue s = [] \<or> readyWorkers s = [])"

text \<open>The workers of the active tasks, in the order of the map.\<close>

definition bound_workers :: "pool \<Rightarrow> wref option list" where
  "bound_workers s = map (\<lambda>e. worker (snd e)) (activeTasks s)"

text \<open>
  No worker has two tasks, no ready worker has a task, and no task id is the empty
  string.
\<close>

definition one_task_each :: "pool \<Rightarrow> bool" where
  "one_task_each s =
     (distinct (bound_workers s)
      \<and> (\<forall>w \<in> set (readyWorkers s). Some w \<notin> set (bound_workers s))
      \<and> [] \<notin> set (map fst (activeTasks s))
      \<and> [] \<notin> set (map task_id (taskQueue s)))"

subsection \<open>Invariants used in the proofs\<close>

text \<open>
  The array of workers has no hole, the id of every worker object is an index of it, and
  every restart timer is for a worker object that exists.
\<close>

definition no_holes :: "pool \<Rightarrow> bool" where
  "no_holes s =
     (None \<notin> set (workers s)
      \<and> (\<forall>i \<in> set (map worker_id (objects s)). i < length (workers s))
      \<and> (\<forall>w \<in> set (timers s). w < length (objects s)))"

text \<open>The promises of the waiting and the active tasks, in order.\<close>

definition task_promises :: "pool \<Rightarrow> nat list" where
  "task_promises s = map promise (taskQueue s @ map snd (activeTasks s))"

text \<open>No two of these tasks share a promise, and each promise was created by the pool.\<close>

definition fresh_promises :: "pool \<Rightarrow> bool" where
  "fresh_promises s =
     (distinct (task_promises s) \<and> (\<forall>p \<in> set (task_promises s). p < promises s))"


text \<open>
  The pool accounts for the tasks \<open>subs\<close> submitted to it: their promises are the promises
  it has created and none has a worker yet; the queue holds submitted tasks and the active
  map holds submitted tasks under their ids, each with the worker it was given; no two
  entries of the map have the same key and no two tasks held the same promise; and a
  promise is unsettled exactly when its task is in the queue or in the map.
\<close>

definition accounted :: "task list \<Rightarrow> pool \<Rightarrow> bool" where
  "accounted subs s =
     (map promise subs = [0..<promises s]
      \<and> (\<forall>t \<in> set subs. worker t = None)
      \<and> (\<forall>t \<in> set (taskQueue s). t \<in> set subs)
      \<and> (\<forall>e \<in> set (activeTasks s). fst e = task_id (snd e) \<and> (snd e)\<lparr>worker := None\<rparr> \<in> set subs)
      \<and> distinct (map fst (activeTasks s))
      \<and> distinct (task_promises s)
      \<and> (\<forall>x \<in> set (settled s). fst x < promises s)
      \<and> (\<forall>p \<in> set [0..<promises s]. (promise_state s p = None) = (p \<in> set (task_promises s))))"

section \<open>Scenarios\<close>

definition ready_message :: jsobj where
  "ready_message = [(''status'', Str ''ready''), (''message'', Str ''Model and processor are ready!'')]"




definition init_message :: jsobj where
  "init_message = [(''type'', Str ''init'')]"

definition error_message :: "string \<Rightarrow> jsobj" where
  "error_message msg = [(''status'', Str ''error''), (''error'', Str msg)]"

text \<open>A worker whose pipeline is built and which is idle.\<close>

definition built_worker :: worker_state where
  "built_worker =
     worker_run fresh_worker
       [Message init_message, ModelSettled 0 (Fulfilled 1), ProcessorSettled 0 (Fulfilled 2)]"

text \<open>A worker whose model is loaded and whose processor is being loaded.\<close>

definition loading_processor :: worker_state where
  "loading_processor = worker_run fresh_worker [Message init_message, ModelSettled 0 (Fulfilled 1)]"

text \<open>A worker that has received \<^verbatim>\<open>init\<close> and is loading the model.\<close>

definition loading_model :: worker_state where
  "loading_model = worker_run fresh_worker [Message init_message]"

text \<open>A pool of two workers just after \<^verbatim>\<open>initialize\<close>: no worker has reported yet.\<close>

definition just_initialized :: pool where
  "just_initialized = run (constructor 2 (Some 8)) [Initialize]"

text \<open>The same pool after one image was submitted: it waits in the queue.\<close>

definition one_queued :: pool where
  "one_queued =
     run (constructor 2 (Some 8))
       [Initialize, ProcessImage (Str ''photo.png'') None ''1700000000000'' ''k3j9x0a1b'']"

definition photo_task :: task where
  "photo_task =
     \<lparr>task_id = ''task_1700000000000_k3j9x0a1b'', imageUrl = Str ''photo.png'',
      promise = 0, onProgress = None, worker = None\<rparr>"

text \<open>
  A pool of two workers, both ready, to which three images were submitted: two are being
  processed and the third waits.
\<close>

definition three_submissions :: "event list" where
  "three_submissions =
     [Initialize, WorkerMessage 0 ready_message, WorkerMessage 1 ready_message,
      ProcessImage (Str ''a.png'') None ''1700000000001'' ''aaaaaaaaa'',
      ProcessImage (Str ''b.png'') None ''1700000000002'' ''bbbbbbbbb'',
      ProcessImage (Str ''c.png'') None ''1700000000003'' ''ccccccccc'']"

definition two_active_one_queued :: pool where
  "two_active_one_queued = run (constructor 2 (Some 8)) three_submissions"

definition crash :: jsval where
  "crash = Obj [(''message'', Str ''worker crashed'')]"

text \<open>
  The scenario of the specification: a pool of two ready workers and five images
  submitted in order; then the workers report results one after the other.
\<close>

definition two_report_ready :: "event list" where
  "two_report_ready = [Initialize, WorkerMessage 0 ready_message, WorkerMessage 1 ready_message]"

definition two_ready :: pool where
  "two_ready = run (constructor 2 (Some 8)) two_report_ready"

definition five_requests :: "(jsval \<times> nat option \<times> string \<times> string) list" where
  "five_requests =
     map (\<lambda>n. (Str (n @ ''.png''), None, ''1700000000000'', n)) [''t1'', ''t2'', ''t3'', ''t4'', ''t5'']"

definition submit :: "string \<Rightarrow> event" where
  "submit n = ProcessImage (Str (n @ ''.png'')) None ''1700000000000'' n"

definition five_submissions :: "event list" where
  "five_submissions = [submit ''t1'', submit ''t2'', submit ''t3'', submit ''t4'', submit ''t5'']"

text \<open>The state inside the handler of a result of worker 0, when the queue is processed.\<close>

definition worker_freed :: pool where
  "worker_freed =
     (set_busy 0 False (run two_ready five_submissions))
       \<lparr>readyWorkers := Set_add 0 (readyWorkers (run two_ready five_submissions))\<rparr>"

definition done_message :: jsobj where
  "done_message = complete_message 640 480 [1, 2, 3]"

text \<open>The three submissions, after which both workers report a result.\<close>

definition two_done :: "event list" where
  "two_done = three_submissions @ [WorkerMessage 0 done_message, WorkerMessage 1 done_message]"

text \<open>
  A worker whose first construction failed, that was given a task all the same, and whose
  second construction, begun for the task, succeeds; and the pool that receives its
  messages.
\<close>

definition statuses :: "jsobj list \<Rightarrow> jsval list" where
  "statuses ms = map (\<lambda>d. field d ''status'') ms"

definition late_ready_worker :: worker_state where
  "late_ready_worker =
     worker_run fresh_worker
       [Message init_message, ModelSettled 0 (Thrown ''network down''),
        Message (dispatch_message photo_task),
        ModelSettled 0 (Fulfilled 1), ProcessorSettled 0 (Fulfilled 2)]"

definition late_ready :: pool where
  "late_ready =
     run (constructor 2 (Some 8))
       [Initialize, WorkerMessage 0 (construction_error AwaitModel ''network down''),
        WorkerMessage 0 (error_message ''network down''),
        ProcessImage (Str ''photo.png'') None ''1700000000000'' ''k3j9x0a1b'',
        WorkerMessage 0 ready_message]"




text \<open>
  A pool on which \<^verbatim>\<open>initialize\<close> was called twice, as the page does when \<^verbatim>\<open>ready\<close> changes:
  it has two generations of workers. Worker 2, the first of the second generation, has
  the id 0.
\<close>

definition two_generations :: pool where
  "two_generations = run (constructor 2 (Some 8)) [Initialize, Initialize]"

text \<open>
  A pool of two ready workers to which two images are submitted in the same millisecond
  with the same random suffix: the two tasks have the same id.
\<close>

definition same_id_twice :: "event list" where
  "same_id_twice =
     [Initialize, WorkerMessage 0 ready_message, WorkerMessage 1 ready_message,
      submit ''a'', submit ''a'']"

section \<open>Properties\<close>

subsection \<open>What \<^verbatim>\<open>processQueue\<close> does\<close>

lemma processQueue_idle: "taskQueue s = [] \<or> readyWorkers s = [] \<Longrightarrow> processQueue s = s"
  by (auto simp: processQueue_def)

lemma processQueue_dispatch:
  "taskQueue s = t # ts \<Longrightarrow> readyWorkers s = w # ws \<Longrightarrow>
   processQueue s = executeTask t w (s\<lparr>taskQueue := ts, readyWorkers := Set_delete w (w # ws)\<rparr>)"
  by (simp add: processQueue_def getAvailableWorker_def)

lemma processQueue_cases:
  obtains (idle) "taskQueue s = [] \<or> readyWorkers s = []" "processQueue s = s"
  | (dispatch) t ts w ws where "taskQueue s = t # ts" "readyWorkers s = w # ws"
      "processQueue s = executeTask t w (s\<lparr>taskQueue := ts, readyWorkers := Set_delete w (w # ws)\<rparr>)"
proof (cases "taskQueue s = [] \<or> readyWorkers s = []")
  case True
  then show ?thesis using idle processQueue_idle by blast
next
  case False
  then obtain t ts w ws where "taskQueue s = t # ts" "readyWorkers s = w # ws"
    by (meson list.exhaust)
  then show ?thesis using dispatch processQueue_dispatch by blast
qed

lemma executeTask_fields [simp]:
  "settled (executeTask t w s) = settled s"
  "taskQueue (executeTask t w s) = taskQueue s"
  "readyWorkers (executeTask t w s) = readyWorkers s"
  "workers (executeTask t w s) = workers s"
  "timers (executeTask t w s) = timers s"
  "promises (executeTask t w s) = promises s"
  "progress (executeTask t w s) = progress s"
  "maxWorkers (executeTask t w s) = maxWorkers s"
  "isInitializing (executeTask t w s) = isInitializing s"
  "activeTasks (executeTask t w s) = Map_set (task_id t) (t\<lparr>worker := Some w\<rparr>) (activeTasks s)"
  "posted (executeTask t w s) =
     posted s @ [(w, [(''imageUrl'', imageUrl t), (''taskId'', Str (task_id t))])]"
  "objects (executeTask t w s) = (objects s)[w := (objects s ! w)\<lparr>busy := True\<rparr>]"
  by (simp_all add: executeTask_def set_busy_def postMessage_def Let_def)

lemma settled_processQueue [simp]: "settled (processQueue s) = settled s"
  by (cases s rule: processQueue_cases) simp_all

subsection \<open>The value a caller of \<^verbatim>\<open>processImage\<close> receives\<close>


subsection \<open>Two calls of \<^verbatim>\<open>initialize\<close>\<close>

lemma spawn_fields [simp]:
  "workers (spawn i s) = workers s @ [Some (length (objects s))]"
  "objects (spawn i s) = objects s @ [\<lparr>worker_id = i, busy = False, terminated = False\<rparr>]"
  "posted (spawn i s) = posted s @ [(length (objects s), [(''type'', Str ''init'')])]"
  "maxWorkers (spawn i s) = maxWorkers s"
  "isInitializing (spawn i s) = isInitializing s"
  "taskQueue (spawn i s) = taskQueue s"
  "activeTasks (spawn i s) = activeTasks s"
  "readyWorkers (spawn i s) = readyWorkers s"
  "settled (spawn i s) = settled s"
  "timers (spawn i s) = timers s"
  "promises (spawn i s) = promises s"
  "progress (spawn i s) = progress s"
  by (simp_all add: spawn_def new_Worker_def postMessage_def)

lemma fold_spawn_fields [simp]:
  "length (workers (fold spawn is s)) = length (workers s) + length is"
  "length (posted (fold spawn is s)) = length (posted s) + length is"
  "maxWorkers (fold spawn is s) = maxWorkers s"
  "isInitializing (fold spawn is s) = isInitializing s"
  "taskQueue (fold spawn is s) = taskQueue s"
  "activeTasks (fold spawn is s) = activeTasks s"
  "readyWorkers (fold spawn is s) = readyWorkers s"
  "settled (fold spawn is s) = settled s"
  "timers (fold spawn is s) = timers s"
  "promises (fold spawn is s) = promises s"
  "progress (fold spawn is s) = progress s"
  by (induction "is" arbitrary: s; simp)+

lemma initialize_fields [simp]:
  "maxWorkers (initialize s) = maxWorkers s"
  "taskQueue (initialize s) = taskQueue s"
  "activeTasks (initialize s) = activeTasks s"
  "readyWorkers (initialize s) = readyWorkers s"
  "settled (initialize s) = settled s"
  "timers (initialize s) = timers s"
  "promises (initialize s) = promises s"
  "progress (initialize s) = progress s"
  by (simp_all add: initialize_def)

lemma initialize_spawns:
  "\<not> isInitializing s \<Longrightarrow>
   length (workers (initialize s)) = length (workers s) + nat (maxWorkers s)
   \<and> length (posted (initialize s)) = length (posted s) + nat (maxWorkers s)
   \<and> \<not> isInitializing (initialize s)"
  by (simp add: initialize_def)

text \<open>
  C3 fails on the code: \<^verbatim>\<open>initialize\<close> has no await, so it has reset \<^verbatim>\<open>isInitializing\<close> before
  any second call begins, and the guard never holds. Two calls on a new pool construct two
  generations of workers: \<^verbatim>\<open>totalWorkers\<close> is twice \<^verbatim>\<open>maxWorkers\<close>, and as many \<^verbatim>\<open>init\<close>
  messages are posted.
\<close>

theorem initialize_twice_spawns_two_generations:
  "totalWorkers (getStats (run (constructor m hc) [Initialize]))
     = nat (maxWorkers (constructor m hc))
   \<and> totalWorkers (getStats (run (constructor m hc) [Initialize, Initialize]))
     = 2 * nat (maxWorkers (constructor m hc))
   \<and> length (posted (run (constructor m hc) [Initialize, Initialize]))
     = 2 * nat (maxWorkers (constructor m hc))
   \<and> workers (run (constructor 2 (Some 8)) [Initialize, Initialize])
     = [Some 0, Some 1, Some 2, Some 3]"
proof -
  have c: "\<not> isInitializing (constructor m hc)" "workers (constructor m hc) = []"
    "posted (constructor m hc) = []"
    by (simp_all add: constructor_def)
  have one: "length (workers (initialize (constructor m hc))) = nat (maxWorkers (constructor m hc))"
    "length (posted (initialize (constructor m hc))) = nat (maxWorkers (constructor m hc))"
    "\<not> isInitializing (initialize (constructor m hc))"
    using initialize_spawns [OF c(1)] c(2,3) by simp_all
  have two: "length (workers (initialize (initialize (constructor m hc))))
      = 2 * nat (maxWorkers (constructor m hc))"
    "length (posted (initialize (initialize (constructor m hc))))
      = 2 * nat (maxWorkers (constructor m hc))"
    using initialize_spawns [OF one(3)] one(1,2) by simp_all
  have ex: "workers (run (constructor 2 (Some 8)) [Initialize, Initialize])
     = [Some 0, Some 1, Some 2, Some 3]"
    by code_simp
  show ?thesis
    using one two ex by (simp add: run_def getStats_def)
qed

subsection \<open>The construction of the pipeline in a worker\<close>

lemma loading_iff: "loading u \<longleftrightarrow> (\<exists>e \<in> set (pending u). \<not> is_AwaitImage (snd e))"
  by (auto simp: loading_def filter_empty_conv)

lemma not_loading_nth:
  "\<not> loading u \<Longrightarrow> i < length (pending u) \<Longrightarrow> is_AwaitImage (snd (pending u ! i))"
  by (simp add: loading_iff)

lemma set_remove_nth: "set (remove_nth i xs) \<subseteq> set xs"
  by (auto simp: remove_nth_def dest: in_set_takeD in_set_dropD)

lemma built_getInstance:
  "model u \<noteq> None \<Longrightarrow> processor u \<noteq> None \<Longrightarrow> getInstance br u = (Some (model u, processor u), u)"
  by (auto simp: getInstance_def)

lemma built_call_getInstance:
  assumes "model u \<noteq> None" "processor u \<noteq> None" "\<not> loading u"
  shows "model (call_getInstance br u) = model u \<and> processor (call_getInstance br u) = processor u
    \<and> modelLoads (call_getInstance br u) = modelLoads u
    \<and> processorLoads (call_getInstance br u) = processorLoads u
    \<and> outbox (call_getInstance br u) = outbox u
    \<and> \<not> loading (call_getInstance br u)"
  using assms
  by (cases br) (auto simp: call_getInstance_def built_getInstance loading_iff)

lemma built_step:
  assumes "model u \<noteq> None" "processor u \<noteq> None" "\<not> loading u"
  shows "model (worker_step u e) = model u \<and> processor (worker_step u e) = processor u
    \<and> modelLoads (worker_step u e) = modelLoads u
    \<and> processorLoads (worker_step u e) = processorLoads u
    \<and> \<not> loading (worker_step u e)"
proof (cases e)
  case (Message data)
  then show ?thesis
    using built_call_getInstance [OF assms] assms(3) by (simp add: listener_def)
next
  case (ModelSettled i r)
  have "i < length (pending u) \<Longrightarrow> snd (pending u ! i) \<noteq> AwaitModel"
    using not_loading_nth [OF assms(3)] by fastforce
  then show ?thesis
    using ModelSettled assms(3) by (auto simp: model_settled_def)
next
  case (ProcessorSettled i r)
  have "i < length (pending u) \<Longrightarrow> snd (pending u ! i) \<noteq> AwaitProcessor"
    using not_loading_nth [OF assms(3)] by fastforce
  then show ?thesis
    using ProcessorSettled assms(3) by (auto simp: processor_settled_def)
next
  case (ImageSettled i r)
  have "\<not> loading (u\<lparr>pending := remove_nth i (pending u)\<rparr>)"
    using assms(3) set_remove_nth [of i "pending u"] by (auto simp: loading_iff)
  then show ?thesis
    using ImageSettled assms(3)
    by (auto simp: image_settled_def self_postMessage_def listener_catch_def loading_iff
        split: awaited.splits)
qed

lemma built_run:
  assumes "model u \<noteq> None" "processor u \<noteq> None" "\<not> loading u"
  shows "model (worker_run u es) = model u \<and> processor (worker_run u es) = processor u
    \<and> modelLoads (worker_run u es) = modelLoads u
    \<and> processorLoads (worker_run u es) = processorLoads u"
  using assms
proof (induction es arbitrary: u)
  case Nil
  then show ?case by (simp add: worker_run_def)
next
  case (Cons e es)
  from built_step [OF Cons.prems, of e]
  have s: "model (worker_step u e) = model u" "processor (worker_step u e) = processor u"
    "modelLoads (worker_step u e) = modelLoads u" "processorLoads (worker_step u e) = processorLoads u"
    "\<not> loading (worker_step u e)"
    by simp_all
  have "model (worker_step u e) \<noteq> None" "processor (worker_step u e) \<noteq> None"
    using s Cons.prems by simp_all
  from Cons.IH [OF this s(5)] s show ?case
    by (simp add: worker_run_def)
qed

text \<open>
  C8, as stated, fails: a second \<^verbatim>\<open>init\<close> that arrives while the first construction is
  still loading the model begins a construction of its own, so the model is requested
  twice.
\<close>

theorem construction_at_most_once_counterexample:
  "\<not> modelLoads (worker_run fresh_worker [Message init_message, Message init_message]) \<le> 1"
  by code_simp

text \<open>
  C8, amended: once the construction has completed (model and processor are both set) and
  no other construction is in flight, then whatever messages and results the worker
  handles afterwards, every call of \<^verbatim>\<open>getInstance\<close> returns the same pair at once,
  without posting or loading anything, and no load is begun again.
\<close>

theorem built_pipeline_is_reused:
  "model u \<noteq> None \<and> processor u \<noteq> None \<and> \<not> loading u \<longrightarrow>
     getInstance br (worker_run u es) = (Some (model u, processor u), worker_run u es)
     \<and> modelLoads (worker_run u es) = modelLoads u
     \<and> processorLoads (worker_run u es) = processorLoads u"
proof
  assume a: "model u \<noteq> None \<and> processor u \<noteq> None \<and> \<not> loading u"
  then have r: "model (worker_run u es) = model u" "processor (worker_run u es) = processor u"
    "modelLoads (worker_run u es) = modelLoads u" "processorLoads (worker_run u es) = processorLoads u"
    using built_run [of u es] by simp_all
  then have "getInstance br (worker_run u es)
      = (Some (model (worker_run u es), processor (worker_run u es)), worker_run u es)"
    using a by (intro built_getInstance) simp_all
  then show "getInstance br (worker_run u es) = (Some (model u, processor u), worker_run u es)
     \<and> modelLoads (worker_run u es) = modelLoads u
     \<and> processorLoads (worker_run u es) = processorLoads u"
    using r by simp
qed

theorem built_pipeline_is_reused_witness:
  "(model built_worker \<noteq> None \<and> processor built_worker \<noteq> None \<and> \<not> loading built_worker)
   \<and> getInstance InitBranch (worker_run built_worker [Message init_message, Message init_message])
       = (Some (Some 1, Some 2), worker_run built_worker [Message init_message, Message init_message])
   \<and> modelLoads (worker_run built_worker [Message init_message, Message init_message]) = 1
   \<and> processorLoads (worker_run built_worker [Message init_message, Message init_message]) = 1"
proof -
  have h: "model built_worker \<noteq> None \<and> processor built_worker \<noteq> None \<and> \<not> loading built_worker"
    by code_simp
  have v: "model built_worker = Some 1" "processor built_worker = Some 2"
    "modelLoads built_worker = 1" "processorLoads built_worker = 1"
    by code_simp+
  show ?thesis
    using h v built_pipeline_is_reused [of built_worker InitBranch
        "[Message init_message, Message init_message]"]
    by simp
qed

subsection \<open>A construction that fails\<close>

lemma processor_awaited_step:
  assumes "model u = None \<longrightarrow> (\<forall>e \<in> set (pending u). snd e \<noteq> AwaitProcessor)"
  shows "model (worker_step u ev) = None \<longrightarrow>
         (\<forall>e \<in> set (pending (worker_step u ev)). snd e \<noteq> AwaitProcessor)"
proof (cases ev)
  case (Message data)
  have "model (call_getInstance br u) = None \<longrightarrow>
         (\<forall>e \<in> set (pending (call_getInstance br u)). snd e \<noteq> AwaitProcessor)" for br
    using assms
    by (cases br) (auto simp: call_getInstance_def getInstance_def self_postMessage_def Let_def)
  then show ?thesis
    using Message assms by (simp add: listener_def)
next
  case (ModelSettled i r)
  then show ?thesis
    using assms set_remove_nth [of i "pending u"]
    by (cases r)
      (auto simp: model_settled_def self_postMessage_def listener_catch_def Let_def)
next
  case (ProcessorSettled i r)
  show ?thesis
  proof (cases "i < length (pending u) \<and> snd (pending u ! i) = AwaitProcessor")
    case True
    then have "model u \<noteq> None"
      using assms nth_mem by blast
    then show ?thesis
      using ProcessorSettled True
      by (cases r; cases "fst (pending u ! i)")
        (auto simp: processor_settled_def self_postMessage_def listener_catch_def Let_def)
  next
    case False
    then show ?thesis
      using ProcessorSettled assms by (auto simp: processor_settled_def)
  qed
next
  case (ImageSettled i r)
  then show ?thesis
    using assms set_remove_nth [of i "pending u"]
    by (cases r)
      (auto simp: image_settled_def self_postMessage_def listener_catch_def Let_def)
qed

lemma processor_awaited_run:
  assumes "model u = None \<longrightarrow> (\<forall>e \<in> set (pending u). snd e \<noteq> AwaitProcessor)"
  shows "model (worker_run u es) = None \<longrightarrow>
         (\<forall>e \<in> set (pending (worker_run u es)). snd e \<noteq> AwaitProcessor)"
  using assms
proof (induction es arbitrary: u)
  case Nil
  then show ?case by (simp add: worker_run_def)
next
  case (Cons ev es)
  from Cons.IH [OF processor_awaited_step [OF Cons.prems, of ev]]
  show ?case by (simp add: worker_run_def)
qed

text \<open>
  C9: when the load of the model throws, the worker posts an error whose text is
  \<^verbatim>\<open>Failed to load model: \<close> and the error's message; when the load of the processor throws,
  which on a new worker happens only after the model has been loaded, the text is
  \<^verbatim>\<open>Failed to load processor: \<close> and the message. The two texts are never equal. (The
  listener then posts the bare message once more.)
\<close>

theorem construction_failure_names_phase:
  "(i < length (pending u) \<and> snd (pending u ! i) = AwaitModel \<longrightarrow>
      outbox (model_settled i (Thrown msg) u)
        = outbox u @ [error_message (''Failed to load model: '' @ msg), error_message msg])
   \<and> (j < length (pending v) \<and> snd (pending v ! j) = AwaitProcessor \<longrightarrow>
      outbox (processor_settled j (Thrown msg) v)
        = outbox v @ [error_message (''Failed to load processor: '' @ msg), error_message msg])
   \<and> (k < length (pending (worker_run fresh_worker es))
        \<and> snd (pending (worker_run fresh_worker es) ! k) = AwaitProcessor \<longrightarrow>
      model (worker_run fresh_worker es) \<noteq> None)
   \<and> ''Failed to load model: '' @ msg \<noteq> ''Failed to load processor: '' @ msg'"
proof (intro conjI impI)
  assume "i < length (pending u) \<and> snd (pending u ! i) = AwaitModel"
  then show "outbox (model_settled i (Thrown msg) u)
        = outbox u @ [error_message (''Failed to load model: '' @ msg), error_message msg]"
    by (simp add: model_settled_def listener_catch_def self_postMessage_def
        construction_error_def error_message_def)
next
  assume "j < length (pending v) \<and> snd (pending v ! j) = AwaitProcessor"
  then show "outbox (processor_settled j (Thrown msg) v)
        = outbox v @ [error_message (''Failed to load processor: '' @ msg), error_message msg]"
    by (simp add: processor_settled_def listener_catch_def self_postMessage_def
        construction_error_def error_message_def)
next
  assume a: "k < length (pending (worker_run fresh_worker es))
        \<and> snd (pending (worker_run fresh_worker es) ! k) = AwaitProcessor"
  have "model fresh_worker = None \<longrightarrow> (\<forall>e \<in> set (pending fresh_worker). snd e \<noteq> AwaitProcessor)"
    by (simp add: fresh_worker_def)
  from processor_awaited_run [OF this, of es] a
  show "model (worker_run fresh_worker es) \<noteq> None"
    using nth_mem by blast
next
  show "''Failed to load model: '' @ msg \<noteq> ''Failed to load processor: '' @ msg'"
    by simp
qed

theorem construction_failure_names_phase_witness:
  "(0 < length (pending loading_model) \<and> snd (pending loading_model ! 0) = AwaitModel)
   \<and> outbox (model_settled 0 (Thrown ''network down'') loading_model)
       = outbox loading_model
         @ [error_message ''Failed to load model: network down'', error_message ''network down'']
   \<and> (0 < length (pending loading_processor) \<and> snd (pending loading_processor ! 0) = AwaitProcessor)
   \<and> outbox (processor_settled 0 (Thrown ''network down'') loading_processor)
       = outbox loading_processor
         @ [error_message ''Failed to load processor: network down'', error_message ''network down'']
   \<and> model (worker_run fresh_worker [Message init_message, ModelSettled 0 (Fulfilled 1)]) \<noteq> None"
proof -
  have h1: "0 < length (pending loading_model) \<and> snd (pending loading_model ! 0) = AwaitModel"
    by code_simp
  have h2: "0 < length (pending loading_processor) \<and> snd (pending loading_processor ! 0) = AwaitProcessor"
    by code_simp
  have h3: "0 < length (pending (worker_run fresh_worker [Message init_message, ModelSettled 0 (Fulfilled 1)]))
     \<and> snd (pending (worker_run fresh_worker [Message init_message, ModelSettled 0 (Fulfilled 1)]) ! 0)
         = AwaitProcessor"
    by code_simp
  show ?thesis
    using h1 h2 h3
      construction_failure_names_phase [of 0 loading_model "''network down''" 0 loading_processor 0
        "[Message init_message, ModelSettled 0 (Fulfilled 1)]"]
    by simp
qed

subsection \<open>An error message from a worker that has no task\<close>

lemma processQueue_fields [simp]:
  "progress (processQueue s) = progress s"
  "workers (processQueue s) = workers s"
  "timers (processQueue s) = timers s"
  "promises (processQueue s) = promises s"
  "maxWorkers (processQueue s) = maxWorkers s"
  "isInitializing (processQueue s) = isInitializing s"
  by (cases s rule: processQueue_cases; simp)+

lemma error_without_task:
  assumes "findTaskIdByWorker s w = None" and "field data ''status'' = Str ''error''"
  shows "handleWorkerMessage w data s
      = processQueue ((set_busy w False s)\<lparr>readyWorkers := Set_add w (readyWorkers s)\<rparr>)"
  using assms
  by (simp add: handleWorkerMessage_def bound_task_def Let_def set_busy_def)

text \<open>
  C10: an \<^verbatim>\<open>error\<close> message from a worker to which no task is bound (such as the one a
  failed construction posts) settles no promise and calls no progress callback; the worker
  is marked not busy and put into the ready set before the queue is processed. With an
  empty queue it stays there, and if it is the only ready worker the next submitted task
  is posted to it; with a waiting task and no other ready worker, the head of the queue is
  posted to it at once.
\<close>

theorem error_without_task_makes_worker_ready:
  "findTaskIdByWorker s w = None \<and> field data ''status'' = Str ''error'' \<longrightarrow>
     handleWorkerMessage w data s
       = processQueue ((set_busy w False s)\<lparr>readyWorkers := Set_add w (readyWorkers s)\<rparr>)
     \<and> settled (handleWorkerMessage w data s) = settled s
     \<and> progress (handleWorkerMessage w data s) = progress s
     \<and> (taskQueue s = [] \<longrightarrow>
          w \<in> set (readyWorkers (handleWorkerMessage w data s))
          \<and> activeTasks (handleWorkerMessage w data s) = activeTasks s
          \<and> (w < length (objects s) \<longrightarrow> \<not> busy (objects (handleWorkerMessage w data s) ! w)))
     \<and> (taskQueue s = [] \<and> readyWorkers s = [] \<longrightarrow>
          posted (snd (processImage url cb now rnd (handleWorkerMessage w data s)))
            = posted s @ [(w, [(''imageUrl'', url), (''taskId'', Str (''task_'' @ now @ ''_'' @ rnd))])])
     \<and> (taskQueue s = t # ts \<and> readyWorkers s = [] \<longrightarrow>
          posted (handleWorkerMessage w data s)
            = posted s @ [(w, [(''imageUrl'', imageUrl t), (''taskId'', Str (task_id t))])]
          \<and> taskQueue (handleWorkerMessage w data s) = ts)
     \<and> field (construction_error st msg) ''status'' = Str ''error''"
proof (intro impI)
  assume a: "findTaskIdByWorker s w = None \<and> field data ''status'' = Str ''error''"
  define s3 where "s3 = (set_busy w False s)\<lparr>readyWorkers := Set_add w (readyWorkers s)\<rparr>"
  have h: "handleWorkerMessage w data s = processQueue s3"
    using a error_without_task s3_def by simp
  have f: "settled s3 = settled s" "progress s3 = progress s" "taskQueue s3 = taskQueue s"
    "activeTasks s3 = activeTasks s" "posted s3 = posted s"
    "readyWorkers s3 = Set_add w (readyWorkers s)"
    "objects s3 = (objects s)[w := (objects s ! w)\<lparr>busy := False\<rparr>]"
    by (simp_all add: s3_def set_busy_def)
  have c1: "settled (processQueue s3) = settled s" "progress (processQueue s3) = progress s"
    using f by simp_all
  have c2: "w \<in> set (readyWorkers (processQueue s3))
          \<and> activeTasks (processQueue s3) = activeTasks s
          \<and> (w < length (objects s) \<longrightarrow> \<not> busy (objects (processQueue s3) ! w))"
    if "taskQueue s = []"
    using that f by (simp add: processQueue_idle Set_add_def)
  have c3: "posted (snd (processImage url cb now rnd (processQueue s3)))
            = posted s @ [(w, [(''imageUrl'', url), (''taskId'', Str (''task_'' @ now @ ''_'' @ rnd))])]"
    if "taskQueue s = [] \<and> readyWorkers s = []"
  proof -
    have i: "processQueue s3 = s3"
      using that f by (simp add: processQueue_idle)
    define tk where "tk = \<lparr>task_id = ''task_'' @ now @ ''_'' @ rnd, imageUrl = url,
        promise = promises s3, onProgress = cb, worker = None\<rparr>"
    define s4 where "s4 = s3\<lparr>promises := Suc (promises s3), taskQueue := taskQueue s3 @ [tk]\<rparr>"
    have q: "taskQueue s4 = tk # []" "readyWorkers s4 = w # []"
      using that f by (simp_all add: s4_def Set_add_def)
    have "posted (processQueue s4) = posted s @ [(w, [(''imageUrl'', imageUrl tk), (''taskId'', Str (task_id tk))])]"
      unfolding processQueue_dispatch [OF q] using f by (simp add: s4_def)
    moreover have "snd (processImage url cb now rnd s3) = processQueue s4"
      by (simp add: processImage_def new_task_def Let_def s4_def tk_def)
    ultimately show ?thesis
      unfolding i by (simp add: tk_def)
  qed
  have c4: "posted (processQueue s3)
            = posted s @ [(w, [(''imageUrl'', imageUrl t), (''taskId'', Str (task_id t))])]
          \<and> taskQueue (processQueue s3) = ts"
    if "taskQueue s = t # ts \<and> readyWorkers s = []"
  proof -
    have q: "taskQueue s3 = t # ts" "readyWorkers s3 = w # []"
      using that f by (simp_all add: Set_add_def)
    show ?thesis
      unfolding processQueue_dispatch [OF q] using f by simp
  qed
  have c5: "field (construction_error st msg) ''status'' = Str ''error''"
    by (simp add: field_def construction_error_def)
  show "handleWorkerMessage w data s
       = processQueue ((set_busy w False s)\<lparr>readyWorkers := Set_add w (readyWorkers s)\<rparr>)
     \<and> settled (handleWorkerMessage w data s) = settled s
     \<and> progress (handleWorkerMessage w data s) = progress s
     \<and> (taskQueue s = [] \<longrightarrow>
          w \<in> set (readyWorkers (handleWorkerMessage w data s))
          \<and> activeTasks (handleWorkerMessage w data s) = activeTasks s
          \<and> (w < length (objects s) \<longrightarrow> \<not> busy (objects (handleWorkerMessage w data s) ! w)))
     \<and> (taskQueue s = [] \<and> readyWorkers s = [] \<longrightarrow>
          posted (snd (processImage url cb now rnd (handleWorkerMessage w data s)))
            = posted s @ [(w, [(''imageUrl'', url), (''taskId'', Str (''task_'' @ now @ ''_'' @ rnd))])])
     \<and> (taskQueue s = t # ts \<and> readyWorkers s = [] \<longrightarrow>
          posted (handleWorkerMessage w data s)
            = posted s @ [(w, [(''imageUrl'', imageUrl t), (''taskId'', Str (task_id t))])]
          \<and> taskQueue (handleWorkerMessage w data s) = ts)
     \<and> field (construction_error st msg) ''status'' = Str ''error''"
    unfolding h using c1 c2 c3 c4 c5 s3_def by blast
qed

theorem error_without_task_makes_worker_ready_witness:
  "(findTaskIdByWorker just_initialized 0 = None
      \<and> field (construction_error AwaitModel ''network down'') ''status'' = Str ''error'')
   \<and> taskQueue just_initialized = [] \<and> readyWorkers just_initialized = []
   \<and> 0 < length (objects just_initialized)
   \<and> settled (handleWorkerMessage 0 (construction_error AwaitModel ''network down'') just_initialized)
        = settled just_initialized
   \<and> 0 \<in> set (readyWorkers
         (handleWorkerMessage 0 (construction_error AwaitModel ''network down'') just_initialized))
   \<and> \<not> busy (objects
         (handleWorkerMessage 0 (construction_error AwaitModel ''network down'') just_initialized) ! 0)
   \<and> posted (snd (processImage (Str ''photo.png'') None ''1700000000000'' ''k3j9x0a1b''
         (handleWorkerMessage 0 (construction_error AwaitModel ''network down'') just_initialized)))
        = posted just_initialized
          @ [(0, [(''imageUrl'', Str ''photo.png''), (''taskId'', Str ''task_1700000000000_k3j9x0a1b'')])]
   \<and> (findTaskIdByWorker one_queued 0 = None
      \<and> taskQueue one_queued = photo_task # [] \<and> readyWorkers one_queued = [])
   \<and> posted (handleWorkerMessage 0 (construction_error AwaitModel ''network down'') one_queued)
        = posted one_queued
          @ [(0, [(''imageUrl'', Str ''photo.png''), (''taskId'', Str ''task_1700000000000_k3j9x0a1b'')])]
   \<and> taskQueue (handleWorkerMessage 0 (construction_error AwaitModel ''network down'') one_queued) = []"
proof -
  have h1: "findTaskIdByWorker just_initialized 0 = None
      \<and> field (construction_error AwaitModel ''network down'') ''status'' = Str ''error''"
    by code_simp
  have h2: "taskQueue just_initialized = []" "readyWorkers just_initialized = []"
    "0 < length (objects just_initialized)"
    by code_simp+
  have h3: "findTaskIdByWorker one_queued 0 = None"
    "taskQueue one_queued = photo_task # []" "readyWorkers one_queued = []"
    by code_simp+
  have p: "imageUrl photo_task = Str ''photo.png''" "task_id photo_task = ''task_1700000000000_k3j9x0a1b''"
    by (simp_all add: photo_task_def)
  let ?e = "construction_error AwaitModel ''network down''"
  from h1 h2 error_without_task_makes_worker_ready
    [of just_initialized 0 ?e "Str ''photo.png''" None "''1700000000000''" "''k3j9x0a1b''"]
  have a: "settled (handleWorkerMessage 0 ?e just_initialized) = settled just_initialized"
    "0 \<in> set (readyWorkers (handleWorkerMessage 0 ?e just_initialized))"
    "\<not> busy (objects (handleWorkerMessage 0 ?e just_initialized) ! 0)"
    "posted (snd (processImage (Str ''photo.png'') None ''1700000000000'' ''k3j9x0a1b''
         (handleWorkerMessage 0 ?e just_initialized)))
        = posted just_initialized
          @ [(0, [(''imageUrl'', Str ''photo.png''), (''taskId'', Str (''task_'' @ ''1700000000000'' @ ''_'' @ ''k3j9x0a1b''))])]"
    by blast+
  from h1 h3 error_without_task_makes_worker_ready [of one_queued 0 ?e _ _ _ _ photo_task "[]"]
  have b: "posted (handleWorkerMessage 0 ?e one_queued)
        = posted one_queued
          @ [(0, [(''imageUrl'', imageUrl photo_task), (''taskId'', Str (task_id photo_task))])]"
    "taskQueue (handleWorkerMessage 0 ?e one_queued) = []"
    by blast+
  have a4: "posted (snd (processImage (Str ''photo.png'') None ''1700000000000'' ''k3j9x0a1b''
         (handleWorkerMessage 0 ?e just_initialized)))
        = posted just_initialized
          @ [(0, [(''imageUrl'', Str ''photo.png''), (''taskId'', Str ''task_1700000000000_k3j9x0a1b'')])]"
    using a(4) by simp
  have b1: "posted (handleWorkerMessage 0 ?e one_queued)
        = posted one_queued
          @ [(0, [(''imageUrl'', Str ''photo.png''), (''taskId'', Str ''task_1700000000000_k3j9x0a1b'')])]"
    using b(1) p by simp
  show ?thesis
    using h1 h2 h3 a(1,2,3) a4 b1 b(2) by blast
qed

subsection \<open>A fault of a worker\<close>

lemma find_append_none:
  "\<forall>e \<in> set pre. \<not> P e \<Longrightarrow> find P (pre @ xs) = find P xs"
  by (induction pre) auto

lemma find_in_set: "find P xs = Some x \<Longrightarrow> x \<in> set xs \<and> P x"
  by (induction xs) (auto split: if_splits)

lemma Map_delete_absent: "k \<notin> fst ` set xs \<Longrightarrow> Map_delete k xs = xs"
  by (induction xs) (auto simp: Map_delete_def)

lemma Map_delete_append: "Map_delete k (xs @ ys) = Map_delete k xs @ Map_delete k ys"
  by (simp add: Map_delete_def)

lemma Map_delete_middle:
  "distinct (map fst (pre @ (k, t) # es)) \<Longrightarrow> Map_delete k (pre @ (k, t) # es) = pre @ es"
proof -
  assume "distinct (map fst (pre @ (k, t) # es))"
  then have "k \<notin> fst ` set pre" "k \<notin> fst ` set es"
    by auto
  then have "Map_delete k pre = pre" "Map_delete k es = es"
    by (simp_all add: Map_delete_absent)
  moreover have "Map_delete k ((k, t) # es) = Map_delete k es"
    by (simp add: Map_delete_def)
  ultimately show ?thesis
    by (simp add: Map_delete_append)
qed

lemma rejectBound_result:
  assumes "distinct (map fst (pre @ es))"
    and "\<forall>e \<in> set pre. worker (snd e) \<noteq> Some w"
    and "activeTasks s = pre @ es"
  shows "rejectBound w err es s =
     s\<lparr>settled := settled s @ map (\<lambda>e. (promise (snd e), Reject err))
                               (filter (\<lambda>e. worker (snd e) = Some w) es),
        activeTasks := pre @ filter (\<lambda>e. worker (snd e) \<noteq> Some w) es\<rparr>"
  using assms
proof (induction es arbitrary: pre s)
  case Nil
  then show ?case by simp
next
  case (Cons e es)
  obtain k t where e: "e = (k, t)" by (cases e)
  have f: "find (\<lambda>e. worker (snd e) = Some w) (activeTasks s)
      = find (\<lambda>e. worker (snd e) = Some w) ((k, t) # es)"
    using Cons.prems(2,3) e by (simp add: find_append_none)
  show ?case
  proof (cases "worker t = Some w")
    case True
    then have id: "findTaskIdByWorker s w = Some k"
      using f by (simp add: findTaskIdByWorker_def)
    define s' where "s' = (reject t err s)\<lparr>activeTasks := Map_delete k (activeTasks (reject t err s))\<rparr>"
    have a: "activeTasks s' = pre @ es"
      using Cons.prems(1,3) e Map_delete_middle [of pre k t es] by (simp add: s'_def reject_def)
    have d: "distinct (map fst (pre @ es))"
      using Cons.prems(1) by simp
    have "rejectBound w err (e # es) s = rejectBound w err es s'"
      using id e by (simp add: s'_def Let_def)
    also have "\<dots> = s'\<lparr>settled := settled s' @ map (\<lambda>e. (promise (snd e), Reject err))
                               (filter (\<lambda>e. worker (snd e) = Some w) es),
        activeTasks := pre @ filter (\<lambda>e. worker (snd e) \<noteq> Some w) es\<rparr>"
      using Cons.IH [OF d Cons.prems(2) a] .
    finally show ?thesis
      using True e by (simp add: s'_def reject_def)
  next
    case False
    have "findTaskIdByWorker s w \<noteq> Some k"
    proof
      assume "findTaskIdByWorker s w = Some k"
      then obtain x where x: "find (\<lambda>e. worker (snd e) = Some w) es = Some x" "fst x = k"
        using f False by (auto simp: findTaskIdByWorker_def)
      then have "k \<in> fst ` set es"
        using find_in_set [OF x(1)] by force
      then show False
        using Cons.prems(1) e by simp
    qed
    then have "rejectBound w err (e # es) s = rejectBound w err es s"
      using e by simp
    also have "\<dots> = s\<lparr>settled := settled s @ map (\<lambda>e. (promise (snd e), Reject err))
                               (filter (\<lambda>e. worker (snd e) = Some w) es),
        activeTasks := (pre @ [e]) @ filter (\<lambda>e. worker (snd e) \<noteq> Some w) es\<rparr>"
      using Cons.IH [of "pre @ [e]" s] Cons.prems False e by simp
    finally show ?thesis
      using False e by simp
  qed
qed

lemma handleWorkerError_result:
  assumes "distinct (map fst (activeTasks s))"
  shows "handleWorkerError w err s =
     s\<lparr>objects := (objects s)[w := (objects s ! w)\<lparr>busy := False\<rparr>],
        readyWorkers := Set_delete w (readyWorkers s),
        settled := settled s @ map (\<lambda>e. (promise (snd e), Reject err))
                               (filter (\<lambda>e. worker (snd e) = Some w) (activeTasks s)),
        activeTasks := filter (\<lambda>e. worker (snd e) \<noteq> Some w) (activeTasks s),
        timers := timers s @ [w]\<rparr>"
proof -
  define s2 where "s2 = (set_busy w False s)\<lparr>readyWorkers := Set_delete w (readyWorkers s)\<rparr>"
  have a: "activeTasks s2 = [] @ activeTasks s"
    by (simp add: s2_def set_busy_def)
  have d: "distinct (map fst ([] @ activeTasks s))"
    using assms by simp
  have "rejectBound w err (activeTasks s) s2 =
     s2\<lparr>settled := settled s2 @ map (\<lambda>e. (promise (snd e), Reject err))
                               (filter (\<lambda>e. worker (snd e) = Some w) (activeTasks s)),
        activeTasks := [] @ filter (\<lambda>e. worker (snd e) \<noteq> Some w) (activeTasks s)\<rparr>"
    by (rule rejectBound_result [OF d _ a]) simp
  then show ?thesis
    by (simp add: handleWorkerError_def Let_def s2_def set_busy_def)
qed

lemma restartWorker_result:
  "restartWorker w s =
     s\<lparr>objects := (objects s)[w := (objects s ! w)\<lparr>terminated := True\<rparr>]
                   @ [\<lparr>worker_id = worker_id (((objects s)[w := (objects s ! w)\<lparr>terminated := True\<rparr>]) ! w),
                       busy = False, terminated = False\<rparr>],
        workers := Array_put
                     (worker_id (((objects s)[w := (objects s ! w)\<lparr>terminated := True\<rparr>]
                                  @ [\<lparr>worker_id = worker_id (((objects s)[w := (objects s ! w)\<lparr>terminated := True\<rparr>]) ! w),
                                      busy = False, terminated = False\<rparr>]) ! w))
                     (length (objects s)) (workers s),
        posted := posted s @ [(length (objects s), [(''type'', Str ''init'')])]\<rparr>"
  by (simp add: restartWorker_def worker_terminate_def new_Worker_def postMessage_def Let_def)

lemma fault_and_restart:
  "distinct (map fst (activeTasks s)) \<and> w < length (objects s)
     \<and> worker_id (objects s ! w) < length (workers s) \<longrightarrow>
   (let s1 = handleWorkerError w err s;
        s2 = step s1 (RestartTimer w)
    in w \<notin> set (readyWorkers s1)
     \<and> \<not> busy (objects s1 ! w)
     \<and> settled s1 = settled s @ map (\<lambda>e. (promise (snd e), Reject err))
                                  (filter (\<lambda>e. worker (snd e) = Some w) (activeTasks s))
     \<and> activeTasks s1 = filter (\<lambda>e. worker (snd e) \<noteq> Some w) (activeTasks s)
     \<and> taskQueue s1 = taskQueue s
     \<and> workers s1 = workers s
     \<and> timers s1 = timers s @ [w]
     \<and> totalWorkers (getStats s2) = totalWorkers (getStats s)
     \<and> workers s2 = (workers s)[worker_id (objects s ! w) := Some (length (objects s))]
     \<and> objects s2 ! length (objects s)
          = \<lparr>worker_id = worker_id (objects s ! w), busy = False, terminated = False\<rparr>
     \<and> terminated (objects s2 ! w)
     \<and> posted s2 = posted s @ [(length (objects s), [(''type'', Str ''init'')])]
     \<and> taskQueue s2 = taskQueue s
     \<and> settled s2 = settled s1)"
proof (intro impI)
  assume a: "distinct (map fst (activeTasks s)) \<and> w < length (objects s)
     \<and> worker_id (objects s ! w) < length (workers s)"
  define s1 where "s1 = handleWorkerError w err s"
  define s2 where "s2 = step s1 (RestartTimer w)"
  have r1: "s1 =
     s\<lparr>objects := (objects s)[w := (objects s ! w)\<lparr>busy := False\<rparr>],
        readyWorkers := Set_delete w (readyWorkers s),
        settled := settled s @ map (\<lambda>e. (promise (snd e), Reject err))
                               (filter (\<lambda>e. worker (snd e) = Some w) (activeTasks s)),
        activeTasks := filter (\<lambda>e. worker (snd e) \<noteq> Some w) (activeTasks s),
        timers := timers s @ [w]\<rparr>"
    unfolding s1_def using a handleWorkerError_result by blast
  have f1: "w \<notin> set (readyWorkers s1)" "\<not> busy (objects s1 ! w)"
    "settled s1 = settled s @ map (\<lambda>e. (promise (snd e), Reject err))
                                  (filter (\<lambda>e. worker (snd e) = Some w) (activeTasks s))"
    "activeTasks s1 = filter (\<lambda>e. worker (snd e) \<noteq> Some w) (activeTasks s)"
    "taskQueue s1 = taskQueue s" "workers s1 = workers s" "timers s1 = timers s @ [w]"
    "objects s1 = (objects s)[w := (objects s ! w)\<lparr>busy := False\<rparr>]"
    "posted s1 = posted s"
    using a by (simp_all add: r1 Set_delete_def)
  have r2: "s2 = restartWorker w (s1\<lparr>timers := remove1 w (timers s1)\<rparr>)"
    using f1(7) by (simp add: s2_def)
  have f2: "workers s2 = (workers s)[worker_id (objects s ! w) := Some (length (objects s))]"
    "objects s2 ! length (objects s)
          = \<lparr>worker_id = worker_id (objects s ! w), busy = False, terminated = False\<rparr>"
    "terminated (objects s2 ! w)"
    "posted s2 = posted s @ [(length (objects s), [(''type'', Str ''init'')])]"
    "taskQueue s2 = taskQueue s" "settled s2 = settled s1"
    using a f1 by (simp_all add: r2 restartWorker_result Array_put_def nth_append)
  have "totalWorkers (getStats s2) = totalWorkers (getStats s)"
    using f2(1) by (simp add: getStats_def)
  then show "let s1 = handleWorkerError w err s; s2 = step s1 (RestartTimer w)
    in w \<notin> set (readyWorkers s1)
     \<and> \<not> busy (objects s1 ! w)
     \<and> settled s1 = settled s @ map (\<lambda>e. (promise (snd e), Reject err))
                                  (filter (\<lambda>e. worker (snd e) = Some w) (activeTasks s))
     \<and> activeTasks s1 = filter (\<lambda>e. worker (snd e) \<noteq> Some w) (activeTasks s)
     \<and> taskQueue s1 = taskQueue s
     \<and> workers s1 = workers s
     \<and> timers s1 = timers s @ [w]
     \<and> totalWorkers (getStats s2) = totalWorkers (getStats s)
     \<and> workers s2 = (workers s)[worker_id (objects s ! w) := Some (length (objects s))]
     \<and> objects s2 ! length (objects s)
          = \<lparr>worker_id = worker_id (objects s ! w), busy = False, terminated = False\<rparr>
     \<and> terminated (objects s2 ! w)
     \<and> posted s2 = posted s @ [(length (objects s), [(''type'', Str ''init'')])]
     \<and> taskQueue s2 = taskQueue s
     \<and> settled s2 = settled s1"
    unfolding Let_def s1_def [symmetric] s2_def [symmetric] using f1 f2 by blast
qed

subsection \<open>What each method leaves unchanged\<close>

lemma ids_set_busy [simp]:
  "map worker_id (xs[w := (xs ! w)\<lparr>busy := b\<rparr>]) = map worker_id xs"
proof (cases "w < length xs")
  case True
  then show ?thesis by (simp add: map_update list_update_same_conv)
next
  case False
  then show ?thesis by (simp add: list_update_beyond)
qed

lemma ids_terminated [simp]:
  "map worker_id (xs[w := (xs ! w)\<lparr>terminated := b\<rparr>]) = map worker_id xs"
proof (cases "w < length xs")
  case True
  then show ?thesis by (simp add: map_update list_update_same_conv)
next
  case False
  then show ?thesis by (simp add: list_update_beyond)
qed

lemma processQueue_objects [simp]:
  "map worker_id (objects (processQueue s)) = map worker_id (objects s)"
  "length (objects (processQueue s)) = length (objects s)"
  by (cases s rule: processQueue_cases; simp)+

lemma processImage_fields [simp]:
  "workers (snd (processImage url cb now rnd s)) = workers s"
  "timers (snd (processImage url cb now rnd s)) = timers s"
  "map worker_id (objects (snd (processImage url cb now rnd s))) = map worker_id (objects s)"
  "length (objects (snd (processImage url cb now rnd s))) = length (objects s)"
  "promises (snd (processImage url cb now rnd s)) = Suc (promises s)"
  "settled (snd (processImage url cb now rnd s)) = settled s"
  "maxWorkers (snd (processImage url cb now rnd s)) = maxWorkers s"
  by (simp_all add: processImage_def Let_def)

lemma handleWorkerMessage_fields [simp]:
  "workers (handleWorkerMessage w data s) = workers s"
  "timers (handleWorkerMessage w data s) = timers s"
  "map worker_id (objects (handleWorkerMessage w data s)) = map worker_id (objects s)"
  "length (objects (handleWorkerMessage w data s)) = length (objects s)"
  "promises (handleWorkerMessage w data s) = promises s"
  "maxWorkers (handleWorkerMessage w data s) = maxWorkers s"
  by (simp_all add: handleWorkerMessage_def Let_def set_busy_def resolve_def reject_def
      split: option.splits prod.splits)

lemma rejectBound_fields [simp]:
  "workers (rejectBound w err es s) = workers s"
  "timers (rejectBound w err es s) = timers s"
  "objects (rejectBound w err es s) = objects s"
  "promises (rejectBound w err es s) = promises s"
  "taskQueue (rejectBound w err es s) = taskQueue s"
  "readyWorkers (rejectBound w err es s) = readyWorkers s"
  "posted (rejectBound w err es s) = posted s"
  "progress (rejectBound w err es s) = progress s"
  "maxWorkers (rejectBound w err es s) = maxWorkers s"
  by (induction w err es s rule: rejectBound.induct; simp add: reject_def Let_def)+

lemma handleWorkerError_fields [simp]:
  "workers (handleWorkerError w err s) = workers s"
  "timers (handleWorkerError w err s) = timers s @ [w]"
  "map worker_id (objects (handleWorkerError w err s)) = map worker_id (objects s)"
  "length (objects (handleWorkerError w err s)) = length (objects s)"
  "promises (handleWorkerError w err s) = promises s"
  "taskQueue (handleWorkerError w err s) = taskQueue s"
  "readyWorkers (handleWorkerError w err s) = Set_delete w (readyWorkers s)"
  "posted (handleWorkerError w err s) = posted s"
  "maxWorkers (handleWorkerError w err s) = maxWorkers s"
  by (simp_all add: handleWorkerError_def Let_def set_busy_def)

lemma fold_spawn_objects:
  "map worker_id (objects (fold spawn is s)) = map worker_id (objects s) @ is"
  "None \<in> set (workers (fold spawn is s)) \<longleftrightarrow> None \<in> set (workers s)"
  "length (objects (fold spawn is s)) = length (objects s) + length is"
  by (induction "is" arbitrary: s; simp)+

lemma restartWorker_fields [simp]:
  "timers (restartWorker w s) = timers s"
  "length (objects (restartWorker w s)) = Suc (length (objects s))"
  "promises (restartWorker w s) = promises s"
  "taskQueue (restartWorker w s) = taskQueue s"
  "readyWorkers (restartWorker w s) = readyWorkers s"
  "activeTasks (restartWorker w s) = activeTasks s"
  "settled (restartWorker w s) = settled s"
  "maxWorkers (restartWorker w s) = maxWorkers s"
  by (simp_all add: restartWorker_def worker_terminate_def new_Worker_def postMessage_def Let_def)

lemma restartWorker_workers:
  assumes "w < length (objects s)"
  shows "workers (restartWorker w s)
           = Array_put (worker_id (objects s ! w)) (length (objects s)) (workers s)"
    and "map worker_id (objects (restartWorker w s))
           = map worker_id (objects s) @ [worker_id (objects s ! w)]"
  using assms
  by (simp_all add: restartWorker_def worker_terminate_def new_Worker_def postMessage_def Let_def
      nth_append)

subsection \<open>The array of workers before \<^verbatim>\<open>terminate\<close>\<close>

lemma set_busy_fields [simp]:
  "readyWorkers (set_busy w b s) = readyWorkers s"
  "activeTasks (set_busy w b s) = activeTasks s"
  "taskQueue (set_busy w b s) = taskQueue s"
  "settled (set_busy w b s) = settled s"
  "posted (set_busy w b s) = posted s"
  "promises (set_busy w b s) = promises s"
  "objects (set_busy w b s) = (objects s)[w := (objects s ! w)\<lparr>busy := b\<rparr>]"
  by (simp_all add: set_busy_def)

lemma bound_task_frame [simp]:
  "bound_task x (s\<lparr>readyWorkers := r\<rparr>) = bound_task x s"
  "bound_task x (set_busy w b s) = bound_task x s"
  by (cases x; simp add: bound_task_def)+

lemma message_ready:
  "field data ''status'' = Str ''ready'' \<Longrightarrow>
   handleWorkerMessage w data s = processQueue (s\<lparr>readyWorkers := Set_add w (readyWorkers s)\<rparr>)"
  by (simp add: handleWorkerMessage_def Let_def)

lemma message_unbound:
  "field data ''status'' = Str ''complete'' \<or> field data ''status'' = Str ''error'' \<Longrightarrow>
   bound_task (findTaskIdByWorker s w) s = None \<Longrightarrow>
   handleWorkerMessage w data s
     = processQueue ((set_busy w False s)\<lparr>readyWorkers := Set_add w (readyWorkers s)\<rparr>)"
  by (auto simp: handleWorkerMessage_def Let_def)

lemma message_bound:
  "field data ''status'' = Str ''complete'' \<or> field data ''status'' = Str ''error'' \<Longrightarrow>
   bound_task (findTaskIdByWorker s w) s = Some (k, t) \<Longrightarrow>
   handleWorkerMessage w data s
     = processQueue ((set_busy w False s)
         \<lparr>readyWorkers := Set_add w (readyWorkers s),
          activeTasks := Map_delete k (activeTasks s),
          settled := settled s @ [(promise t,
             if field data ''status'' = Str ''complete'' then Resolve (Obj data)
             else Reject (NewError (field data ''error'')))]\<rparr>)"
  by (auto simp: handleWorkerMessage_def Let_def resolve_def reject_def)

lemma message_other:
  "field data ''status'' \<noteq> Str ''ready'' \<Longrightarrow> field data ''status'' \<noteq> Str ''complete'' \<Longrightarrow>
   field data ''status'' \<noteq> Str ''error'' \<Longrightarrow>
   handleWorkerMessage w data s = s\<lparr>progress := progress (handleWorkerMessage w data s)\<rparr>"
  by (auto simp: handleWorkerMessage_def Let_def split: option.splits)

lemma handleWorkerMessage_cases:
  obtains (ready) "field data ''status'' = Str ''ready''"
      "handleWorkerMessage w data s = processQueue (s\<lparr>readyWorkers := Set_add w (readyWorkers s)\<rparr>)"
  | (unbound) "field data ''status'' = Str ''complete'' \<or> field data ''status'' = Str ''error''"
      "bound_task (findTaskIdByWorker s w) s = None"
      "handleWorkerMessage w data s
         = processQueue ((set_busy w False s)\<lparr>readyWorkers := Set_add w (readyWorkers s)\<rparr>)"
  | (bound) k t where "field data ''status'' = Str ''complete'' \<or> field data ''status'' = Str ''error''"
      "bound_task (findTaskIdByWorker s w) s = Some (k, t)"
      "handleWorkerMessage w data s
         = processQueue ((set_busy w False s)
             \<lparr>readyWorkers := Set_add w (readyWorkers s),
              activeTasks := Map_delete k (activeTasks s),
              settled := settled s @ [(promise t,
                 if field data ''status'' = Str ''complete'' then Resolve (Obj data)
                 else Reject (NewError (field data ''error'')))]\<rparr>)"
  | (other) "field data ''status'' \<noteq> Str ''ready''" "field data ''status'' \<noteq> Str ''complete''"
      "field data ''status'' \<noteq> Str ''error''"
      "handleWorkerMessage w data s = s\<lparr>progress := progress (handleWorkerMessage w data s)\<rparr>"
proof (cases "field data ''status'' = Str ''ready''")
  case True
  then show ?thesis
    using ready message_ready by blast
next
  case nr: False
  show ?thesis
  proof (cases "field data ''status'' = Str ''complete'' \<or> field data ''status'' = Str ''error''")
    case True
    show ?thesis
    proof (cases "bound_task (findTaskIdByWorker s w) s")
      case None
      then show ?thesis
        using unbound True message_unbound by blast
    next
      case (Some a)
      obtain k t where a: "a = (k, t)" by (cases a)
      show ?thesis
        using bound [of k t] True Some a message_bound [of data s w k t] by blast
    qed
  next
    case False
    then show ?thesis
      using other nr message_other [of data w s] by blast
  qed
qed

lemma no_holes_fold_spawn:
  assumes "no_holes s"
  shows "no_holes (fold spawn [0..<n] s)"
proof -
  have "None \<notin> set (workers (fold spawn [0..<n] s))"
    using assms by (simp add: fold_spawn_objects no_holes_def)
  moreover have "\<forall>i \<in> set (map worker_id (objects (fold spawn [0..<n] s))).
      i < length (workers (fold spawn [0..<n] s))"
    using assms by (auto simp: fold_spawn_objects no_holes_def)
  moreover have "\<forall>w \<in> set (timers (fold spawn [0..<n] s)).
      w < length (objects (fold spawn [0..<n] s))"
    using assms by (auto simp: fold_spawn_objects no_holes_def)
  ultimately show ?thesis
    unfolding no_holes_def by blast
qed

lemma no_holes_initialize: "no_holes s \<Longrightarrow> no_holes (initialize s)"
proof -
  assume a: "no_holes s"
  have b: "no_holes (s'\<lparr>isInitializing := b\<rparr>) = no_holes s'" for s' b
    by (simp add: no_holes_def)
  show ?thesis
    using a no_holes_fold_spawn [of "s\<lparr>isInitializing := True\<rparr>" "nat (maxWorkers s)"]
    by (simp add: initialize_def b)
qed

lemma no_holes_restart:
  assumes "no_holes s" and "w \<in> set (timers s)"
  shows "no_holes (restartWorker w (s\<lparr>timers := remove1 w (timers s)\<rparr>))"
proof -
  define s' where "s' = s\<lparr>timers := remove1 w (timers s)\<rparr>"
  have w: "w < length (objects s')"
    using assms by (simp add: s'_def no_holes_def)
  have i: "worker_id (objects s' ! w) < length (workers s')"
    using assms w by (simp add: s'_def no_holes_def)
  have "workers (restartWorker w s') = (workers s')[worker_id (objects s' ! w) := Some (length (objects s'))]"
    using restartWorker_workers(1) [OF w] i by (simp add: Array_put_def)
  moreover have "None \<notin> set (workers s')" "\<forall>i \<in> set (map worker_id (objects s')). i < length (workers s')"
    "\<forall>w \<in> set (timers s'). w < length (objects s')"
    using assms(1) by (auto simp: s'_def no_holes_def dest: notin_set_remove1)
  ultimately show ?thesis
    unfolding s'_def [symmetric] no_holes_def
    using restartWorker_workers(2) [OF w] i
    by (auto dest: set_update_subset_insert [THEN subsetD] simp: less_Suc_eq)
qed

lemma no_holes_step:
  assumes "no_holes s" and "attached s e" and "e \<noteq> Terminate"
  shows "no_holes (step s e)"
proof (cases e)
  case Initialize
  then show ?thesis using assms no_holes_initialize by simp
next
  case (ProcessImage url cb now rnd)
  then show ?thesis using assms(1) by (simp add: no_holes_def)
next
  case (WorkerMessage w data)
  then show ?thesis using assms(1) by (simp add: no_holes_def)
next
  case (WorkerError w err)
  then show ?thesis using assms(1,2) by (auto simp: no_holes_def)
next
  case (RestartTimer w)
  then show ?thesis using assms(1) no_holes_restart by simp
next
  case Terminate
  then show ?thesis using assms(3) by simp
qed

lemma no_holes_run:
  assumes "no_holes s" and "attached_run s es" and "Terminate \<notin> set es"
  shows "no_holes (run s es)"
  using assms
proof (induction es arbitrary: s)
  case Nil
  then show ?case by (simp add: run_def)
next
  case (Cons e es)
  then have "no_holes (step s e)"
    using no_holes_step [of s e] by auto
  with Cons show ?case
    by (simp add: run_def)
qed

lemma no_holes_constructor: "no_holes (constructor m hc)"
  by (simp add: no_holes_def constructor_def)

subsection \<open>What \<^verbatim>\<open>terminate\<close> does\<close>

lemma fold_reject:
  "fold (\<lambda>t. reject t v) ts s = s\<lparr>settled := settled s @ map (\<lambda>t. (promise t, Reject v)) ts\<rparr>"
  by (induction ts arbitrary: s) (simp_all add: reject_def)

lemma terminateWorkers_shape:
  "\<exists>obj. (None \<in> set ws \<and> terminateWorkers ws s = Inl (TypeError, s\<lparr>objects := obj\<rparr>))
       \<or> (None \<notin> set ws \<and> terminateWorkers ws s = Inr (s\<lparr>objects := obj\<rparr>))"
proof (induction ws arbitrary: s)
  case Nil
  have "s = s\<lparr>objects := objects s\<rparr>" by simp
  then show ?case by (metis empty_iff list.set(1) terminateWorkers.simps(1))
next
  case (Cons x ws)
  show ?case
  proof (cases x)
    case None
    have "s = s\<lparr>objects := objects s\<rparr>" by simp
    then show ?thesis
      using None by (metis list.set_intros(1) terminateWorkers.simps(2))
  next
    case (Some w)
    from Cons.IH [of "worker_terminate w s"] obtain obj where
      "(None \<in> set ws \<and> terminateWorkers ws (worker_terminate w s)
            = Inl (TypeError, (worker_terminate w s)\<lparr>objects := obj\<rparr>))
       \<or> (None \<notin> set ws \<and> terminateWorkers ws (worker_terminate w s)
            = Inr ((worker_terminate w s)\<lparr>objects := obj\<rparr>))"
      by blast
    moreover have "(worker_terminate w s)\<lparr>objects := obj\<rparr> = s\<lparr>objects := obj\<rparr>"
      by (simp add: worker_terminate_def)
    ultimately show ?thesis
      using Some by auto
  qed
qed

lemma terminate_shape:
  obtains (threw) s' where "None \<in> set (workers s)" "terminate s = Inl (TypeError, s')"
      "taskQueue s' = []" "activeTasks s' = []" "readyWorkers s' = readyWorkers s"
      "promises s' = promises s" "workers s' = workers s"
      "settled s' = settled s @ map (\<lambda>t. (promise t, Reject pool_terminated))
                                  (taskQueue s @ map snd (activeTasks s))"
  | (returned) s' where "None \<notin> set (workers s)" "terminate s = Inr s'"
      "settled s' = settled s @ map (\<lambda>t. (promise t, Reject pool_terminated))
                                  (taskQueue s @ map snd (activeTasks s))"
      "taskQueue s' = []" "activeTasks s' = []" "workers s' = []" "readyWorkers s' = []"
      "promises s' = promises s"
proof -
  define s4 where "s4 = s\<lparr>settled := settled s @ map (\<lambda>t. (promise t, Reject pool_terminated))
                                  (taskQueue s @ map snd (activeTasks s)),
       taskQueue := [], activeTasks := []\<rparr>"
  have e: "(fold (\<lambda>t. reject t (NewError (Str ''Worker pool terminated'')))
       (map snd (activeTasks
          ((fold (\<lambda>t. reject t (NewError (Str ''Worker pool terminated''))) (taskQueue s) s)
             \<lparr>taskQueue := []\<rparr>)))
       ((fold (\<lambda>t. reject t (NewError (Str ''Worker pool terminated''))) (taskQueue s) s)
          \<lparr>taskQueue := []\<rparr>))\<lparr>activeTasks := []\<rparr> = s4"
    by (cases s) (simp add: s4_def fold_reject pool_terminated_def)
  have t: "terminate s = (case terminateWorkers (workers s4) s4 of
           Inl e \<Rightarrow> Inl e
         | Inr s5 \<Rightarrow> Inr (s5\<lparr>workers := [], readyWorkers := []\<rparr>))"
    unfolding terminate_def Let_def e ..
  have f: "workers s4 = workers s" "taskQueue s4 = []" "activeTasks s4 = []"
    "readyWorkers s4 = readyWorkers s" "promises s4 = promises s"
    "settled s4 = settled s @ map (\<lambda>t. (promise t, Reject pool_terminated))
                                  (taskQueue s @ map snd (activeTasks s))"
    by (simp_all add: s4_def)
  from terminateWorkers_shape [of "workers s4" s4] obtain obj where
    o: "(None \<in> set (workers s) \<and> terminateWorkers (workers s4) s4 = Inl (TypeError, s4\<lparr>objects := obj\<rparr>))
       \<or> (None \<notin> set (workers s) \<and> terminateWorkers (workers s4) s4 = Inr (s4\<lparr>objects := obj\<rparr>))"
    unfolding f(1) by blast
  show ?thesis
  proof (cases "None \<in> set (workers s)")
    case True
    then have "terminate s = Inl (TypeError, s4\<lparr>objects := obj\<rparr>)"
      using o t by simp
    then show ?thesis
      using threw [of "s4\<lparr>objects := obj\<rparr>"] True f by simp
  next
    case False
    then have "terminate s = Inr (s4\<lparr>objects := obj, workers := [], readyWorkers := []\<rparr>)"
      using o t by simp
    then show ?thesis
      using returned [of "s4\<lparr>objects := obj, workers := [], readyWorkers := []\<rparr>"] False f by simp
  qed
qed

lemma map_of_constant:
  "p \<in> fst ` set xs \<Longrightarrow> \<forall>x \<in> set xs. snd x = v \<Longrightarrow> map_of xs p = Some v"
  by (induction xs) auto

subsection \<open>The promises of the tasks the pool holds\<close>

lemma in_Map_set: "x \<in> set (Map_set k v es) \<Longrightarrow> x = (k, v) \<or> x \<in> set es"
  by (induction es) (auto split: if_splits)

lemma Map_set_subset: "set (map f (Map_set k v es)) \<subseteq> insert (f (k, v)) (set (map f es))"
  using in_Map_set [of _ k v es] by auto

lemma Map_set_distinct:
  "distinct (map f es) \<Longrightarrow> f (k, v) \<notin> set (map f es) \<Longrightarrow> distinct (map f (Map_set k v es))"
proof (induction es)
  case Nil
  then show ?case by simp
next
  case (Cons e es)
  obtain k' v' where e: "e = (k', v')" by (cases e)
  show ?case
  proof (cases "k' = k")
    case True
    then show ?thesis using Cons.prems e by simp
  next
    case False
    have "f e \<notin> set (map f (Map_set k v es))"
      using Cons.prems Map_set_subset [of f k v es] by auto
    then show ?thesis
      using False e Cons by simp
  qed
qed

lemma task_promises_frame:
  "taskQueue s' = taskQueue s \<Longrightarrow> activeTasks s' = activeTasks s \<Longrightarrow>
   task_promises s' = task_promises s"
  by (simp add: task_promises_def)

lemma task_promises_filter:
  assumes "taskQueue s' = taskQueue s" and "activeTasks s' = filter P (activeTasks s)"
  shows "set (task_promises s') \<subseteq> set (task_promises s)"
    and "distinct (task_promises s) \<Longrightarrow> distinct (task_promises s')"
  using assms by (auto simp: task_promises_def distinct_map_filter)

lemma task_promises_processQueue:
  shows "set (task_promises (processQueue s)) \<subseteq> set (task_promises s)"
    and "distinct (task_promises s) \<Longrightarrow> distinct (task_promises (processQueue s))"
proof -
  have "set (task_promises (processQueue s)) \<subseteq> set (task_promises s)
      \<and> (distinct (task_promises s) \<longrightarrow> distinct (task_promises (processQueue s)))"
  proof (cases s rule: processQueue_cases)
    case idle
    then show ?thesis by simp
  next
    case (dispatch t ts w ws)
    let ?f = "\<lambda>e. promise (snd e)"
    let ?a = "Map_set (task_id t) (t\<lparr>worker := Some w\<rparr>) (activeTasks s)"
    have p: "task_promises s = promise t # map promise ts @ map ?f (activeTasks s)"
      using dispatch(1) by (simp add: task_promises_def)
    have q: "task_promises (processQueue s) = map promise ts @ map ?f ?a"
      unfolding dispatch(3) by (simp add: task_promises_def)
    have sub: "set (map ?f ?a) \<subseteq> insert (promise t) (set (map ?f (activeTasks s)))"
      using Map_set_subset [of ?f "task_id t" "t\<lparr>worker := Some w\<rparr>" "activeTasks s"] by simp
    have dis: "distinct (map ?f ?a)" if "distinct (task_promises s)"
      using that Map_set_distinct [of ?f "activeTasks s" "task_id t" "t\<lparr>worker := Some w\<rparr>"]
      unfolding p by simp
    have d1: "distinct (map promise ts)"
      "set (map promise ts) \<inter> set (map ?f (activeTasks s)) = {}"
      "promise t \<notin> set (map promise ts)"
      if "distinct (task_promises s)"
      using that unfolding p by auto
    have d2: "set (map promise ts) \<inter> set (map ?f ?a) = {}" if "distinct (task_promises s)"
      using d1 [OF that] sub by blast
    have "set (map promise ts @ map ?f ?a) \<subseteq> set (promise t # map promise ts @ map ?f (activeTasks s))"
      using sub by (simp only: set_append list.set) blast
    moreover have "distinct (map promise ts @ map ?f ?a)" if "distinct (task_promises s)"
      using d1 [OF that] d2 [OF that] dis [OF that] by (simp only: distinct_append simp_thms)
    ultimately show ?thesis
      unfolding q p by blast
  qed
  then show "set (task_promises (processQueue s)) \<subseteq> set (task_promises s)"
    and "distinct (task_promises s) \<Longrightarrow> distinct (task_promises (processQueue s))"
    by simp_all
qed

lemma fresh_promises_smaller:
  assumes "fresh_promises s" and "promises s \<le> promises s'"
    and "set (task_promises s') \<subseteq> set (task_promises s)"
    and "distinct (task_promises s) \<Longrightarrow> distinct (task_promises s')"
  shows "fresh_promises s'"
  using assms unfolding fresh_promises_def by (meson order_less_le_trans subsetD)

lemma fresh_promises_processQueue: "fresh_promises s \<Longrightarrow> fresh_promises (processQueue s)"
  using fresh_promises_smaller [of s "processQueue s"] task_promises_processQueue [of s] by simp

lemma fresh_promises_frame:
  "fresh_promises s \<Longrightarrow> taskQueue s' = taskQueue s \<Longrightarrow> activeTasks s' = activeTasks s \<Longrightarrow>
   promises s' = promises s \<Longrightarrow> fresh_promises s'"
  by (simp add: fresh_promises_def task_promises_def)

lemma fresh_promises_filter:
  assumes "fresh_promises s" and "taskQueue s' = taskQueue s"
    and "activeTasks s' = filter P (activeTasks s)" and "promises s' = promises s"
  shows "fresh_promises s'"
  using fresh_promises_smaller [OF assms(1), of s'] task_promises_filter [OF assms(2,3)] assms(4)
  by simp

lemma rejectBound_filter:
  "\<exists>P. activeTasks (rejectBound w err es s) = filter P (activeTasks s)"
proof (induction es arbitrary: s)
  case Nil
  have "activeTasks s = filter (\<lambda>e. True) (activeTasks s)" by simp
  then show ?case by (metis rejectBound.simps(1))
next
  case (Cons e es)
  obtain k t where e: "e = (k, t)" by (cases e)
  show ?case
  proof (cases "findTaskIdByWorker s w = Some k")
    case True
    define s1 where "s1 = (reject t err s)\<lparr>activeTasks := Map_delete k (activeTasks (reject t err s))\<rparr>"
    have a: "activeTasks s1 = filter (\<lambda>e. fst e \<noteq> k) (activeTasks s)"
      by (simp add: s1_def reject_def Map_delete_def)
    from Cons.IH [of s1] obtain P where "activeTasks (rejectBound w err es s1) = filter P (activeTasks s1)"
      by blast
    then have "activeTasks (rejectBound w err es s1) = filter (\<lambda>e. fst e \<noteq> k \<and> P e) (activeTasks s)"
      unfolding a by simp
    moreover have "rejectBound w err (e # es) s = rejectBound w err es s1"
      using True e by (simp add: s1_def Let_def)
    ultimately show ?thesis by metis
  next
    case False
    then have "rejectBound w err (e # es) s = rejectBound w err es s"
      using e by simp
    then show ?thesis using Cons.IH [of s] by simp
  qed
qed

lemma handleWorkerError_filter:
  "\<exists>P. activeTasks (handleWorkerError w err s) = filter P (activeTasks s)"
proof -
  define s2 where "s2 = (set_busy w False s)\<lparr>readyWorkers := Set_delete w (readyWorkers (set_busy w False s))\<rparr>"
  have "activeTasks s2 = activeTasks s"
    by (simp add: s2_def)
  moreover have "activeTasks (handleWorkerError w err s) = activeTasks (rejectBound w err (activeTasks s2) s2)"
    by (simp add: handleWorkerError_def Let_def s2_def)
  ultimately show ?thesis
    using rejectBound_filter [of w err "activeTasks s2" s2] by simp
qed

lemma fresh_promises_processImage:
  assumes "fresh_promises s"
  shows "fresh_promises (snd (processImage url cb now rnd s))"
proof -
  define s2 where "s2 = s\<lparr>promises := Suc (promises s),
      taskQueue := taskQueue s @ [new_task url cb now rnd (promises s)]\<rparr>"
  have "task_promises s2 = map promise (taskQueue s) @ promises s # map promise (map snd (activeTasks s))"
    by (simp add: s2_def task_promises_def new_task_def)
  moreover have "task_promises s = map promise (taskQueue s) @ map promise (map snd (activeTasks s))"
    by (simp add: task_promises_def)
  ultimately have "fresh_promises s2"
    using assms by (auto simp: fresh_promises_def s2_def less_Suc_eq)
  then have "fresh_promises (processQueue s2)"
    by (rule fresh_promises_processQueue)
  moreover have "snd (processImage url cb now rnd s) = processQueue s2"
    by (simp add: processImage_def Let_def s2_def)
  ultimately show ?thesis by simp
qed

lemma fresh_promises_message:
  assumes "fresh_promises s"
  shows "fresh_promises (handleWorkerMessage w data s)"
proof (cases data w s rule: handleWorkerMessage_cases)
  case ready
  have "fresh_promises (s\<lparr>readyWorkers := Set_add w (readyWorkers s)\<rparr>)"
    by (rule fresh_promises_frame [OF assms]) simp_all
  then show ?thesis
    unfolding ready(2) by (rule fresh_promises_processQueue)
next
  case unbound
  have "fresh_promises ((set_busy w False s)\<lparr>readyWorkers := Set_add w (readyWorkers s)\<rparr>)"
    by (rule fresh_promises_frame [OF assms]) simp_all
  then show ?thesis
    unfolding unbound(3) by (rule fresh_promises_processQueue)
next
  case (bound k t)
  let ?s = "(set_busy w False s)
             \<lparr>readyWorkers := Set_add w (readyWorkers s),
              activeTasks := Map_delete k (activeTasks s),
              settled := settled s @ [(promise t,
                 if field data ''status'' = Str ''complete'' then Resolve (Obj data)
                 else Reject (NewError (field data ''error'')))]\<rparr>"
  have "fresh_promises ?s"
    by (rule fresh_promises_filter [OF assms, where P = "\<lambda>e. fst e \<noteq> k"])
      (simp_all add: Map_delete_def)
  then show ?thesis
    unfolding bound(3) by (rule fresh_promises_processQueue)
next
  case other
  have "fresh_promises (s\<lparr>progress := progress (handleWorkerMessage w data s)\<rparr>)"
    by (rule fresh_promises_frame [OF assms]) simp_all
  then show ?thesis
    using other(4) by simp
qed

lemma fresh_promises_step:
  assumes "fresh_promises s"
  shows "fresh_promises (step s e)"
proof (cases e)
  case Initialize
  have "fresh_promises (initialize s)"
    by (rule fresh_promises_frame [OF assms]) simp_all
  then show ?thesis using Initialize by simp
next
  case (ProcessImage url cb now rnd)
  then show ?thesis using assms fresh_promises_processImage by simp
next
  case (WorkerMessage w data)
  then show ?thesis using assms fresh_promises_message by simp
next
  case (WorkerError w err)
  obtain P where "activeTasks (handleWorkerError w err s) = filter P (activeTasks s)"
    using handleWorkerError_filter by blast
  then have "fresh_promises (handleWorkerError w err s)"
    using fresh_promises_filter [OF assms, of "handleWorkerError w err s" P] by simp
  then show ?thesis using WorkerError by simp
next
  case (RestartTimer w)
  have "fresh_promises (restartWorker w (s\<lparr>timers := remove1 w (timers s)\<rparr>))"
    by (rule fresh_promises_frame [OF assms]) simp_all
  then show ?thesis using RestartTimer assms by simp
next
  case Terminate
  show ?thesis
  proof (cases s rule: terminate_shape)
    case (threw s')
    then show ?thesis
      using Terminate assms by (simp add: fresh_promises_def task_promises_def)
  next
    case (returned s')
    then show ?thesis
      using Terminate assms by (simp add: fresh_promises_def task_promises_def)
  qed
qed

lemma fresh_promises_run: "fresh_promises s \<Longrightarrow> fresh_promises (run s es)"
proof (induction es arbitrary: s)
  case Nil
  then show ?case by (simp add: run_def)
next
  case (Cons e es)
  from Cons.IH [OF fresh_promises_step [OF Cons.prems, of e]]
  show ?case by (simp add: run_def)
qed

lemma fresh_promises_constructor: "fresh_promises (constructor m hc)"
  by (simp add: fresh_promises_def task_promises_def constructor_def)

text \<open>
  C6: on a pool that has not been terminated before, whatever happened to it,
  \<^verbatim>\<open>terminate\<close> returns normally; it calls \<^verbatim>\<open>reject\<close> with the error
  \<^verbatim>\<open>Worker pool terminated\<close> once for each waiting task and once for each active task, and
  these tasks have different promises; a promise among them that was unsettled is then
  rejected with that error, a promise that was settled keeps its settlement; and the
  queue, the active map, the array of workers and the ready set are empty afterwards.
\<close>

theorem terminate_rejects_every_task:
  "attached_run (constructor m hc) es \<and> Terminate \<notin> set es \<longrightarrow>
   (let s = run (constructor m hc) es;
        held = taskQueue s @ map snd (activeTasks s)
    in \<exists>s'. terminate s = Inr s'
        \<and> settled s' = settled s @ map (\<lambda>t. (promise t, Reject pool_terminated)) held
        \<and> distinct (map promise held)
        \<and> (\<forall>t \<in> set held. promise_state s (promise t) = None \<longrightarrow>
              promise_state s' (promise t) = Some (Reject pool_terminated))
        \<and> (\<forall>p x. promise_state s p = Some x \<longrightarrow> promise_state s' p = Some x)
        \<and> taskQueue s' = [] \<and> activeTasks s' = [] \<and> workers s' = [] \<and> readyWorkers s' = [])"
proof (intro impI)
  assume a: "attached_run (constructor m hc) es \<and> Terminate \<notin> set es"
  define s where "s = run (constructor m hc) es"
  define held where "held = taskQueue s @ map snd (activeTasks s)"
  have "no_holes s"
    unfolding s_def using a no_holes_run [OF no_holes_constructor] by blast
  then have nh: "None \<notin> set (workers s)"
    by (simp add: no_holes_def)
  have "fresh_promises s"
    unfolding s_def using fresh_promises_run [OF fresh_promises_constructor] .
  then have d: "distinct (map promise held)"
    by (simp add: fresh_promises_def task_promises_def held_def)
  from nh obtain s' where t: "terminate s = Inr s'"
    and f: "settled s' = settled s @ map (\<lambda>t. (promise t, Reject pool_terminated)) held"
      "taskQueue s' = []" "activeTasks s' = []" "workers s' = []" "readyWorkers s' = []"
    unfolding held_def by (cases s rule: terminate_shape) auto
  have r: "promise_state s' (promise t) = Some (Reject pool_terminated)"
    if "t \<in> set held" "promise_state s (promise t) = None" for t
  proof -
    have "map_of (map (\<lambda>t. (promise t, Reject pool_terminated)) held) (promise t)
        = Some (Reject pool_terminated)"
      using that(1) by (intro map_of_constant) (auto simp: image_image)
    then show ?thesis
      using that(2) by (simp add: promise_state_def f(1) map_add_def)
  qed
  have k: "promise_state s' p = Some x" if "promise_state s p = Some x" for p x
    using that by (simp add: promise_state_def f(1) map_add_def)
  have "terminate s = Inr s'
        \<and> settled s' = settled s @ map (\<lambda>t. (promise t, Reject pool_terminated)) held
        \<and> distinct (map promise held)
        \<and> (\<forall>t \<in> set held. promise_state s (promise t) = None \<longrightarrow>
              promise_state s' (promise t) = Some (Reject pool_terminated))
        \<and> (\<forall>p x. promise_state s p = Some x \<longrightarrow> promise_state s' p = Some x)
        \<and> taskQueue s' = [] \<and> activeTasks s' = [] \<and> workers s' = [] \<and> readyWorkers s' = []"
    by (intro conjI ballI allI impI t f d r k)
  then have "\<exists>s'. terminate s = Inr s'
        \<and> settled s' = settled s @ map (\<lambda>t. (promise t, Reject pool_terminated)) held
        \<and> distinct (map promise held)
        \<and> (\<forall>t \<in> set held. promise_state s (promise t) = None \<longrightarrow>
              promise_state s' (promise t) = Some (Reject pool_terminated))
        \<and> (\<forall>p x. promise_state s p = Some x \<longrightarrow> promise_state s' p = Some x)
        \<and> taskQueue s' = [] \<and> activeTasks s' = [] \<and> workers s' = [] \<and> readyWorkers s' = []"
    by (rule exI)
  then show "let s = run (constructor m hc) es;
        held = taskQueue s @ map snd (activeTasks s)
    in \<exists>s'. terminate s = Inr s'
        \<and> settled s' = settled s @ map (\<lambda>t. (promise t, Reject pool_terminated)) held
        \<and> distinct (map promise held)
        \<and> (\<forall>t \<in> set held. promise_state s (promise t) = None \<longrightarrow>
              promise_state s' (promise t) = Some (Reject pool_terminated))
        \<and> (\<forall>p x. promise_state s p = Some x \<longrightarrow> promise_state s' p = Some x)
        \<and> taskQueue s' = [] \<and> activeTasks s' = [] \<and> workers s' = [] \<and> readyWorkers s' = []"
    unfolding Let_def s_def held_def .
qed

theorem terminate_rejects_every_task_witness:
  "(attached_run (constructor 2 (Some 8)) three_submissions \<and> Terminate \<notin> set three_submissions)
   \<and> map promise (taskQueue two_active_one_queued @ map snd (activeTasks two_active_one_queued))
        = [2, 0, 1]
   \<and> map (promise_state two_active_one_queued) [2, 0, 1] = [None, None, None]
   \<and> (\<exists>s'. terminate two_active_one_queued = Inr s'
         \<and> map (promise_state s') [2, 0, 1]
             = [Some (Reject pool_terminated), Some (Reject pool_terminated),
                Some (Reject pool_terminated)]
         \<and> settled s' = [(2, Reject pool_terminated), (0, Reject pool_terminated),
                          (1, Reject pool_terminated)]
         \<and> taskQueue s' = [] \<and> activeTasks s' = [] \<and> workers s' = [] \<and> readyWorkers s' = [])"
proof -
  have h: "attached_run (constructor 2 (Some 8)) three_submissions \<and> Terminate \<notin> set three_submissions"
    by code_simp
  have v: "map promise (taskQueue two_active_one_queued @ map snd (activeTasks two_active_one_queued))
        = [2, 0, 1]"
    "map (promise_state two_active_one_queued) [2, 0, 1] = [None, None, None]"
    "settled two_active_one_queued = []"
    by code_simp+
  from h terminate_rejects_every_task [of 2 "Some 8" three_submissions]
  obtain s' where s': "terminate two_active_one_queued = Inr s'"
    "settled s' = settled two_active_one_queued @ map (\<lambda>t. (promise t, Reject pool_terminated))
        (taskQueue two_active_one_queued @ map snd (activeTasks two_active_one_queued))"
    "taskQueue s' = []" "activeTasks s' = []" "workers s' = []" "readyWorkers s' = []"
    unfolding Let_def two_active_one_queued_def [symmetric] by blast
  have "settled s' = map (\<lambda>p. (p, Reject pool_terminated))
      (map promise (taskQueue two_active_one_queued @ map snd (activeTasks two_active_one_queued)))"
    unfolding s'(2) v(3) by (simp add: comp_def)
  then have st: "settled s' = [(2, Reject pool_terminated), (0, Reject pool_terminated),
                          (1, Reject pool_terminated)]"
    unfolding v(1) by simp
  then have "map (promise_state s') [2, 0, 1]
             = [Some (Reject pool_terminated), Some (Reject pool_terminated),
                Some (Reject pool_terminated)]"
    by (simp add: promise_state_def)
  then have "terminate two_active_one_queued = Inr s'
         \<and> map (promise_state s') [2, 0, 1]
             = [Some (Reject pool_terminated), Some (Reject pool_terminated),
                Some (Reject pool_terminated)]
         \<and> settled s' = [(2, Reject pool_terminated), (0, Reject pool_terminated),
                          (1, Reject pool_terminated)]
         \<and> taskQueue s' = [] \<and> activeTasks s' = [] \<and> workers s' = [] \<and> readyWorkers s' = []"
    using s' st by simp
  then have "\<exists>s'. terminate two_active_one_queued = Inr s'
         \<and> map (promise_state s') [2, 0, 1]
             = [Some (Reject pool_terminated), Some (Reject pool_terminated),
                Some (Reject pool_terminated)]
         \<and> settled s' = [(2, Reject pool_terminated), (0, Reject pool_terminated),
                          (1, Reject pool_terminated)]
         \<and> taskQueue s' = [] \<and> activeTasks s' = [] \<and> workers s' = [] \<and> readyWorkers s' = []"
    by (rule exI)
  with h v(1,2) show ?thesis
    by (simp only: simp_thms)
qed

subsection \<open>The order of the queue\<close>

lemma queue_processQueue: "\<exists>zs. taskQueue s = zs @ taskQueue (processQueue s)"
proof (cases s rule: processQueue_cases)
  case idle
  then show ?thesis by simp
next
  case (dispatch t ts w ws)
  then have "taskQueue s = [t] @ taskQueue (processQueue s)" by simp
  then show ?thesis by blast
qed

lemma queue_message: "\<exists>zs. taskQueue s = zs @ taskQueue (handleWorkerMessage w data s)"
proof (cases data w s rule: handleWorkerMessage_cases)
  case ready
  show ?thesis
    unfolding ready(2)
    using queue_processQueue [of "s\<lparr>readyWorkers := Set_add w (readyWorkers s)\<rparr>"] by simp
next
  case unbound
  show ?thesis
    unfolding unbound(3)
    using queue_processQueue [of "(set_busy w False s)\<lparr>readyWorkers := Set_add w (readyWorkers s)\<rparr>"]
    by simp
next
  case (bound k t)
  show ?thesis
    unfolding bound(3)
    using queue_processQueue [of "(set_busy w False s)
             \<lparr>readyWorkers := Set_add w (readyWorkers s),
              activeTasks := Map_delete k (activeTasks s),
              settled := settled s @ [(promise t,
                 if field data ''status'' = Str ''complete'' then Resolve (Obj data)
                 else Reject (NewError (field data ''error'')))]\<rparr>"]
    by simp
next
  case other
  have "taskQueue (s\<lparr>progress := progress (handleWorkerMessage w data s)\<rparr>) = taskQueue s"
    by simp
  then have "taskQueue (handleWorkerMessage w data s) = taskQueue s"
    using other(4) by simp
  then show ?thesis by simp
qed

lemma queue_step: "\<exists>zs. taskQueue s @ submissions s [e] = zs @ taskQueue (step s e)"
proof (cases e)
  case Initialize
  then show ?thesis by simp
next
  case (ProcessImage url cb now rnd)
  define s2 where "s2 = s\<lparr>promises := Suc (promises s),
      taskQueue := taskQueue s @ [new_task url cb now rnd (promises s)]\<rparr>"
  have "step s e = processQueue s2"
    using ProcessImage by (simp add: processImage_def Let_def s2_def)
  moreover have "taskQueue s @ submissions s [e] = taskQueue s2"
    using ProcessImage by (simp add: s2_def)
  ultimately show ?thesis
    using queue_processQueue [of s2] by simp
next
  case (WorkerMessage w data)
  then show ?thesis using queue_message [of s w data] by simp
next
  case (WorkerError w err)
  then show ?thesis by simp
next
  case (RestartTimer w)
  then show ?thesis by simp
next
  case Terminate
  show ?thesis
    using Terminate by (cases s rule: terminate_shape) simp_all
qed

lemma submissions_Cons: "submissions s (e # es) = submissions s [e] @ submissions (step s e) es"
  by (cases e) simp_all

lemma queue_run: "\<exists>zs. taskQueue s @ submissions s es = zs @ taskQueue (run s es)"
proof (induction es arbitrary: s)
  case Nil
  then show ?case by (simp add: run_def)
next
  case (Cons e es)
  obtain zs where 1: "taskQueue s @ submissions s [e] = zs @ taskQueue (step s e)"
    using queue_step by blast
  obtain zs' where 2: "taskQueue (step s e) @ submissions (step s e) es
      = zs' @ taskQueue (run (step s e) es)"
    using Cons.IH by blast
  have "taskQueue s @ submissions s (e # es)
      = (taskQueue s @ submissions s [e]) @ submissions (step s e) es"
    by (subst submissions_Cons) simp
  also have "\<dots> = zs @ zs' @ taskQueue (run (step s e) es)"
    unfolding 1 using 2 by simp
  finally have "taskQueue s @ submissions s (e # es) = (zs @ zs') @ taskQueue (run s (e # es))"
    by (simp add: run_def)
  then show ?case by blast
qed

text \<open>
  C5: at every point of every run, the queue is what remains of the tasks that were
  waiting at the start followed by the tasks submitted since, in that order, after some of
  them were taken from the front; a dispatch posts the head of the queue and leaves the
  rest. In the scenario, with two ready workers and \<open>t1\<close> to \<open>t5\<close> submitted in order,
  \<open>t1\<close> and \<open>t2\<close> are dispatched at once and \<open>t3\<close>, \<open>t4\<close>, \<open>t5\<close> wait; each result that
  arrives then dispatches the next of them, \<open>t3\<close> first, then \<open>t4\<close>, then \<open>t5\<close>.
\<close>

theorem queue_keeps_submission_order:
  "(\<exists>taken. taskQueue s @ submissions s es = taken @ taskQueue (run s es))
   \<and> (\<exists>taken. submissions (constructor m hc) es = taken @ taskQueue (run (constructor m hc) es))
   \<and> (taskQueue s = t # ts \<and> readyWorkers s = w # ws \<longrightarrow>
        posted (processQueue s) = posted s @ [(w, dispatch_message t)]
        \<and> taskQueue (processQueue s) = ts)
   \<and> dispatches (run two_ready five_submissions)
        = [(0, Str ''task_1700000000000_t1''), (1, Str ''task_1700000000000_t2'')]
   \<and> map task_id (taskQueue (run two_ready five_submissions))
        = [''task_1700000000000_t3'', ''task_1700000000000_t4'', ''task_1700000000000_t5'']
   \<and> dispatches (run two_ready (five_submissions @ [WorkerMessage 0 done_message]))
        = [(0, Str ''task_1700000000000_t1''), (1, Str ''task_1700000000000_t2''),
           (0, Str ''task_1700000000000_t3'')]
   \<and> map task_id (taskQueue (run two_ready (five_submissions @ [WorkerMessage 0 done_message])))
        = [''task_1700000000000_t4'', ''task_1700000000000_t5'']
   \<and> dispatches (run two_ready (five_submissions
          @ [WorkerMessage 0 done_message, WorkerMessage 1 done_message]))
        = [(0, Str ''task_1700000000000_t1''), (1, Str ''task_1700000000000_t2''),
           (0, Str ''task_1700000000000_t3''), (1, Str ''task_1700000000000_t4'')]
   \<and> map task_id (taskQueue (run two_ready (five_submissions
          @ [WorkerMessage 0 done_message, WorkerMessage 1 done_message])))
        = [''task_1700000000000_t5'']
   \<and> dispatches (run two_ready (five_submissions
          @ [WorkerMessage 0 done_message, WorkerMessage 1 done_message, WorkerMessage 1 done_message]))
        = [(0, Str ''task_1700000000000_t1''), (1, Str ''task_1700000000000_t2''),
           (0, Str ''task_1700000000000_t3''), (1, Str ''task_1700000000000_t4''),
           (1, Str ''task_1700000000000_t5'')]"
proof -
  have a: "\<exists>taken. taskQueue s @ submissions s es = taken @ taskQueue (run s es)"
    by (rule queue_run)
  have b: "\<exists>taken. submissions (constructor m hc) es = taken @ taskQueue (run (constructor m hc) es)"
    using queue_run [of "constructor m hc" es] by (simp add: constructor_def)
  have c: "taskQueue s = t # ts \<and> readyWorkers s = w # ws \<longrightarrow>
        posted (processQueue s) = posted s @ [(w, dispatch_message t)]
        \<and> taskQueue (processQueue s) = ts"
    by (auto simp: processQueue_dispatch dispatch_message_def)
  have d: "dispatches (run two_ready five_submissions)
        = [(0, Str ''task_1700000000000_t1''), (1, Str ''task_1700000000000_t2'')]"
    "map task_id (taskQueue (run two_ready five_submissions))
        = [''task_1700000000000_t3'', ''task_1700000000000_t4'', ''task_1700000000000_t5'']"
    "dispatches (run two_ready (five_submissions @ [WorkerMessage 0 done_message]))
        = [(0, Str ''task_1700000000000_t1''), (1, Str ''task_1700000000000_t2''),
           (0, Str ''task_1700000000000_t3'')]"
    "map task_id (taskQueue (run two_ready (five_submissions @ [WorkerMessage 0 done_message])))
        = [''task_1700000000000_t4'', ''task_1700000000000_t5'']"
    "dispatches (run two_ready (five_submissions
          @ [WorkerMessage 0 done_message, WorkerMessage 1 done_message]))
        = [(0, Str ''task_1700000000000_t1''), (1, Str ''task_1700000000000_t2''),
           (0, Str ''task_1700000000000_t3''), (1, Str ''task_1700000000000_t4'')]"
    "map task_id (taskQueue (run two_ready (five_submissions
          @ [WorkerMessage 0 done_message, WorkerMessage 1 done_message])))
        = [''task_1700000000000_t5'']"
    "dispatches (run two_ready (five_submissions
          @ [WorkerMessage 0 done_message, WorkerMessage 1 done_message, WorkerMessage 1 done_message]))
        = [(0, Str ''task_1700000000000_t1''), (1, Str ''task_1700000000000_t2''),
           (0, Str ''task_1700000000000_t3''), (1, Str ''task_1700000000000_t4''),
           (1, Str ''task_1700000000000_t5'')]"
    by code_simp+
  show ?thesis
    by (intro conjI a b c d)
qed

theorem queue_keeps_submission_order_witness:
  "(map task_id (taskQueue worker_freed)
      = ''task_1700000000000_t3'' # [''task_1700000000000_t4'', ''task_1700000000000_t5'']
    \<and> readyWorkers worker_freed = 0 # [])
   \<and> dispatches (processQueue worker_freed)
       = dispatches worker_freed @ [(0, Str ''task_1700000000000_t3'')]
   \<and> taskQueue (processQueue worker_freed) = tl (taskQueue worker_freed)"
proof -
  have h: "taskQueue worker_freed = hd (taskQueue worker_freed) # tl (taskQueue worker_freed)
      \<and> readyWorkers worker_freed = 0 # []"
    by code_simp
  have v: "map task_id (taskQueue worker_freed)
      = ''task_1700000000000_t3'' # [''task_1700000000000_t4'', ''task_1700000000000_t5'']"
    "field (dispatch_message (hd (taskQueue worker_freed))) ''taskId'' = Str ''task_1700000000000_t3''"
    "field (dispatch_message (hd (taskQueue worker_freed))) ''type'' \<noteq> Str ''init''"
    by code_simp+
  from h queue_keeps_submission_order
    [of worker_freed "[]" _ _ "hd (taskQueue worker_freed)" "tl (taskQueue worker_freed)" 0 "[]"]
  have c: "posted (processQueue worker_freed)
      = posted worker_freed @ [(0, dispatch_message (hd (taskQueue worker_freed)))]"
    "taskQueue (processQueue worker_freed) = tl (taskQueue worker_freed)"
    by blast+
  have "dispatches (processQueue worker_freed)
       = dispatches worker_freed @ [(0, Str ''task_1700000000000_t3'')]"
    using v(2,3) by (simp add: dispatches_def c(1))
  then show ?thesis
    using h v(1) c(2) by simp
qed

subsection \<open>One dispatch at a time is enough\<close>

lemma dispatch_head_executeTask:
  "taskQueue s = t # ts \<Longrightarrow> readyWorkers s = w # ws \<Longrightarrow>
   dispatch_head s = executeTask t w (s\<lparr>taskQueue := ts, readyWorkers := Set_delete w (w # ws)\<rparr>)"
  by (cases s)
    (simp add: dispatch_head_def executeTask_def set_busy_def postMessage_def Let_def
      dispatch_message_def)

lemma drainQueue_idle: "taskQueue s = [] \<or> readyWorkers s = [] \<Longrightarrow> drainQueue s = s"
  by (subst drainQueue.simps) auto

lemma drainQueue_once:
  assumes "length (taskQueue s) \<le> 1 \<or> length (readyWorkers s) \<le> 1"
  shows "processQueue s = drainQueue s"
proof (cases s rule: processQueue_cases)
  case idle
  then show ?thesis by (simp add: drainQueue_idle)
next
  case (dispatch t ts w ws)
  have h: "dispatch_head s = processQueue s"
    using dispatch dispatch_head_executeTask by simp
  have "taskQueue (processQueue s) = [] \<or> readyWorkers (processQueue s) = []"
    using assms dispatch by (auto simp: Set_delete_def)
  then have "drainQueue (processQueue s) = processQueue s"
    by (rule drainQueue_idle)
  moreover have "drainQueue s = drainQueue (dispatch_head s)"
    using dispatch by (subst drainQueue.simps) simp
  ultimately show ?thesis
    using h by simp
qed

lemma drained_processQueue:
  assumes "length (taskQueue s) \<le> 1 \<or> length (readyWorkers s) \<le> 1"
  shows "drained (processQueue s)"
proof (cases s rule: processQueue_cases)
  case idle
  then show ?thesis by (auto simp: drained_def)
next
  case (dispatch t ts w ws)
  then show ?thesis
    using assms by (auto simp: drained_def Set_delete_def)
qed

lemma drained_push:
  "drained s \<Longrightarrow> taskQueue s' = taskQueue s @ [t] \<Longrightarrow> readyWorkers s' = readyWorkers s \<Longrightarrow>
   length (taskQueue s') \<le> 1 \<or> length (readyWorkers s') \<le> 1"
  by (auto simp: drained_def)

lemma drained_add:
  "drained s \<Longrightarrow> taskQueue s' = taskQueue s \<Longrightarrow> readyWorkers s' = Set_add w (readyWorkers s) \<Longrightarrow>
   length (taskQueue s') \<le> 1 \<or> length (readyWorkers s') \<le> 1"
  by (auto simp: drained_def Set_add_def)

lemma message_trigger:
  assumes "field data ''status'' = Str ''complete'' \<or> field data ''status'' = Str ''error''"
  shows "\<exists>pre. handleWorkerMessage w data s = processQueue pre
      \<and> taskQueue pre = taskQueue s \<and> readyWorkers pre = Set_add w (readyWorkers s)"
proof (cases data w s rule: handleWorkerMessage_cases)
  case ready
  then show ?thesis using assms by auto
next
  case unbound
  show ?thesis
    by (rule exI [of _ "(set_busy w False s)\<lparr>readyWorkers := Set_add w (readyWorkers s)\<rparr>"])
      (simp add: unbound(3))
next
  case (bound k t)
  show ?thesis
    by (rule exI [of _ "(set_busy w False s)
             \<lparr>readyWorkers := Set_add w (readyWorkers s),
              activeTasks := Map_delete k (activeTasks s),
              settled := settled s @ [(promise t,
                 if field data ''status'' = Str ''complete'' then Resolve (Obj data)
                 else Reject (NewError (field data ''error'')))]\<rparr>"])
      (simp add: bound(3))
next
  case other
  then show ?thesis using assms by auto
qed

lemma drained_message: "drained s \<Longrightarrow> drained (handleWorkerMessage w data s)"
proof (cases data w s rule: handleWorkerMessage_cases)
  case ready
  assume "drained s"
  then show ?thesis
    unfolding ready(2) by (intro drained_processQueue drained_add [of s]) simp_all
next
  case unbound
  assume d: "drained s"
  obtain pre where "handleWorkerMessage w data s = processQueue pre"
    "taskQueue pre = taskQueue s" "readyWorkers pre = Set_add w (readyWorkers s)"
    using message_trigger [OF unbound(1)] by blast
  then show ?thesis
    using drained_processQueue [OF drained_add [OF d]] by simp
next
  case (bound k t)
  assume d: "drained s"
  obtain pre where "handleWorkerMessage w data s = processQueue pre"
    "taskQueue pre = taskQueue s" "readyWorkers pre = Set_add w (readyWorkers s)"
    using message_trigger [OF bound(1)] by blast
  then show ?thesis
    using drained_processQueue [OF drained_add [OF d]] by simp
next
  case other
  assume "drained s"
  then have "drained (s\<lparr>progress := progress (handleWorkerMessage w data s)\<rparr>)"
    by (simp add: drained_def)
  then show ?thesis using other(4) by simp
qed

lemma processImage_trigger:
  "snd (processImage url cb now rnd s)
     = processQueue (s\<lparr>promises := Suc (promises s),
                       taskQueue := taskQueue s @ [new_task url cb now rnd (promises s)]\<rparr>)"
  by (simp add: processImage_def Let_def)

lemma drained_step: "drained s \<Longrightarrow> drained (step s e)"
proof (cases e)
  case Initialize
  assume "drained s"
  then show ?thesis using Initialize by (simp add: drained_def)
next
  case (ProcessImage url cb now rnd)
  assume d: "drained s"
  show ?thesis
    unfolding ProcessImage step.simps processImage_trigger
    by (intro drained_processQueue drained_push [OF d]) simp_all
next
  case (WorkerMessage w data)
  assume "drained s"
  then show ?thesis using WorkerMessage drained_message by simp
next
  case (WorkerError w err)
  assume "drained s"
  then show ?thesis using WorkerError by (auto simp: drained_def Set_delete_def)
next
  case (RestartTimer w)
  assume "drained s"
  then show ?thesis using RestartTimer by (simp add: drained_def)
next
  case Terminate
  assume "drained s"
  show ?thesis
    using Terminate by (cases s rule: terminate_shape) (simp_all add: drained_def)
qed

lemma drained_run: "drained s \<Longrightarrow> drained (run s es)"
proof (induction es arbitrary: s)
  case Nil
  then show ?case by (simp add: run_def)
next
  case (Cons e es)
  from Cons.IH [OF drained_step [OF Cons.prems, of e]]
  show ?case by (simp add: run_def)
qed

lemma drained_constructor: "drained (constructor m hc)"
  by (simp add: drained_def constructor_def)

lemma Set_delete_head: "distinct (w # ws) \<Longrightarrow> Set_delete w (w # ws) = ws"
  by (auto simp: Set_delete_def filter_id_conv)

lemma batch_run:
  assumes "drained s" and "distinct (readyWorkers s)"
  shows "taskQueue (run s (map request reqs))
           = taskQueue s @ drop (length (readyWorkers s)) (submissions s (map request reqs))
       \<and> readyWorkers (run s (map request reqs)) = drop (length reqs) (readyWorkers s)
       \<and> posted (run s (map request reqs))
           = posted s @ map (\<lambda>p. (fst p, dispatch_message (snd p)))
                          (zip (readyWorkers s) (submissions s (map request reqs)))
       \<and> length (submissions s (map request reqs)) = length reqs"
  using assms
proof (induction reqs arbitrary: s)
  case Nil
  then show ?case by (simp add: run_def)
next
  case (Cons r reqs)
  obtain url cb now rnd where r: "r = (url, cb, now, rnd)"
    by (cases r)
  define e where "e = ProcessImage url cb now rnd"
  define t where "t = new_task url cb now rnd (promises s)"
  define s2 where "s2 = s\<lparr>promises := Suc (promises s), taskQueue := taskQueue s @ [t]\<rparr>"
  have e: "request r = e"
    by (simp add: request_def r e_def)
  have st: "step s e = processQueue s2"
    by (simp add: e_def processImage_trigger s2_def t_def)
  have sub: "submissions s (map request (r # reqs)) = t # submissions (step s e) (map request reqs)"
    by (simp add: e e_def t_def)
  have rn: "run s (map request (r # reqs)) = run (step s e) (map request reqs)"
    by (simp add: run_def e)
  have d': "drained (step s e)"
    using drained_step [OF Cons.prems(1)] .
  show ?case
  proof (cases "readyWorkers s")
    case Nil
    have i: "step s e = s2"
      unfolding st using Nil by (simp add: processQueue_idle s2_def)
    have "distinct (readyWorkers (step s e))"
      using Cons.prems(2) by (simp add: i s2_def)
    from Cons.IH [OF d' this] show ?thesis
      unfolding rn sub using Nil by (simp add: i s2_def)
  next
    case (Cons w ws)
    then have q: "taskQueue s = []"
      using Cons.prems(1) by (simp add: drained_def)
    have i: "step s e = executeTask t w (s2\<lparr>taskQueue := [], readyWorkers := Set_delete w (w # ws)\<rparr>)"
      unfolding st
      by (rule processQueue_dispatch) (simp_all add: s2_def q Cons)
    have dw: "Set_delete w (w # ws) = ws"
      using Cons.prems(2) Cons by (intro Set_delete_head) simp
    have f: "readyWorkers (step s e) = ws" "taskQueue (step s e) = []"
      "posted (step s e) = posted s @ [(w, dispatch_message t)]"
      by (simp_all add: i dw s2_def dispatch_message_def)
    have "distinct (readyWorkers (step s e))"
      using Cons.prems(2) Cons f(1) by simp
    from Cons.IH [OF d' this] show ?thesis
      unfolding rn sub f using Cons q by simp
  qed
qed

text \<open>
  C2: \<^verbatim>\<open>processQueue\<close> dispatches one task for each call, and in every run of the pool
  that is what the specification's loop would do at the same point. After every step of
  every run the queue is empty or no worker is ready; so where the queue is processed,
  after a task was pushed or a worker was added to the ready set, at most one dispatch is
  possible, and \<^verbatim>\<open>processQueue\<close> leaves the state that \<open>drainQueue\<close> leaves. With an empty
  queue and \<open>k\<close> ready workers, submitting more than \<open>k\<close> tasks posts the first \<open>k\<close> of
  them, one to each ready worker, and leaves the others in the queue in their order. With
  no ready worker \<^verbatim>\<open>processQueue\<close> changes nothing.
\<close>

theorem queue_is_drained_at_every_trigger:
  "(taskQueue (run (constructor m hc) es) = [] \<or> readyWorkers (run (constructor m hc) es) = [])
   \<and> (let s = run (constructor m hc) es;
           pushed = s\<lparr>promises := Suc (promises s),
                       taskQueue := taskQueue s @ [new_task url cb now rnd (promises s)]\<rparr>
       in snd (processImage url cb now rnd s) = processQueue pushed
          \<and> processQueue pushed = drainQueue pushed
          \<and> (field sig ''status'' = Str ''ready'' \<longrightarrow>
                handleWorkerMessage w sig s
                  = drainQueue (s\<lparr>readyWorkers := Set_add w (readyWorkers s)\<rparr>))
          \<and> (field data ''status'' = Str ''complete'' \<or> field data ''status'' = Str ''error'' \<longrightarrow>
                (\<exists>pre. handleWorkerMessage w data s = processQueue pre
                   \<and> processQueue pre = drainQueue pre
                   \<and> taskQueue pre = taskQueue s
                   \<and> readyWorkers pre = Set_add w (readyWorkers s))))
   \<and> (taskQueue s1 = [] \<and> distinct (readyWorkers s1) \<and> length (readyWorkers s1) < length reqs \<longrightarrow>
        (let s' = run s1 (map request reqs);
             tasks = submissions s1 (map request reqs)
         in length tasks = length reqs
            \<and> posted s' = posted s1 @ map (\<lambda>p. (fst p, dispatch_message (snd p)))
                                         (zip (readyWorkers s1) tasks)
            \<and> length (posted s') = length (posted s1) + length (readyWorkers s1)
            \<and> taskQueue s' = drop (length (readyWorkers s1)) tasks
            \<and> length (taskQueue s') = length reqs - length (readyWorkers s1)
            \<and> readyWorkers s' = []))
   \<and> (readyWorkers s0 = [] \<longrightarrow> processQueue s0 = s0)"
proof -
  define s where "s = run (constructor m hc) es"
  define pushed where "pushed = s\<lparr>promises := Suc (promises s),
                       taskQueue := taskQueue s @ [new_task url cb now rnd (promises s)]\<rparr>"
  have d: "drained s"
    unfolding s_def by (rule drained_run [OF drained_constructor])
  then have a: "taskQueue s = [] \<or> readyWorkers s = []"
    by (simp add: drained_def)
  have b1: "snd (processImage url cb now rnd s) = processQueue pushed"
    unfolding pushed_def by (rule processImage_trigger)
  have b2: "processQueue pushed = drainQueue pushed"
    by (intro drainQueue_once drained_push [OF d]) (simp_all add: pushed_def)
  have b3: "handleWorkerMessage w sig s = drainQueue (s\<lparr>readyWorkers := Set_add w (readyWorkers s)\<rparr>)"
    if "field sig ''status'' = Str ''ready''"
  proof -
    have "processQueue (s\<lparr>readyWorkers := Set_add w (readyWorkers s)\<rparr>)
        = drainQueue (s\<lparr>readyWorkers := Set_add w (readyWorkers s)\<rparr>)"
      by (intro drainQueue_once drained_add [OF d]) simp_all
    then show ?thesis
      using message_ready [OF that] by simp
  qed
  have b4: "\<exists>pre. handleWorkerMessage w data s = processQueue pre
                   \<and> processQueue pre = drainQueue pre
                   \<and> taskQueue pre = taskQueue s
                   \<and> readyWorkers pre = Set_add w (readyWorkers s)"
    if st: "field data ''status'' = Str ''complete'' \<or> field data ''status'' = Str ''error''"
  proof -
    obtain pre where p: "handleWorkerMessage w data s = processQueue pre"
      "taskQueue pre = taskQueue s" "readyWorkers pre = Set_add w (readyWorkers s)"
      using message_trigger [OF st] by blast
    have "processQueue pre = drainQueue pre"
      by (rule drainQueue_once [OF drained_add [OF d p(2,3)]])
    then show ?thesis
      using p by blast
  qed
  have b: "let s = run (constructor m hc) es;
           pushed = s\<lparr>promises := Suc (promises s),
                       taskQueue := taskQueue s @ [new_task url cb now rnd (promises s)]\<rparr>
       in snd (processImage url cb now rnd s) = processQueue pushed
          \<and> processQueue pushed = drainQueue pushed
          \<and> (field sig ''status'' = Str ''ready'' \<longrightarrow>
                handleWorkerMessage w sig s
                  = drainQueue (s\<lparr>readyWorkers := Set_add w (readyWorkers s)\<rparr>))
          \<and> (field data ''status'' = Str ''complete'' \<or> field data ''status'' = Str ''error'' \<longrightarrow>
                (\<exists>pre. handleWorkerMessage w data s = processQueue pre
                   \<and> processQueue pre = drainQueue pre
                   \<and> taskQueue pre = taskQueue s
                   \<and> readyWorkers pre = Set_add w (readyWorkers s)))"
    unfolding Let_def s_def [symmetric] pushed_def [symmetric]
    using b1 b2 b3 b4 by (intro conjI impI)
  have c: "taskQueue s1 = [] \<and> distinct (readyWorkers s1) \<and> length (readyWorkers s1) < length reqs \<longrightarrow>
        (let s' = run s1 (map request reqs);
             tasks = submissions s1 (map request reqs)
         in length tasks = length reqs
            \<and> posted s' = posted s1 @ map (\<lambda>p. (fst p, dispatch_message (snd p)))
                                         (zip (readyWorkers s1) tasks)
            \<and> length (posted s') = length (posted s1) + length (readyWorkers s1)
            \<and> taskQueue s' = drop (length (readyWorkers s1)) tasks
            \<and> length (taskQueue s') = length reqs - length (readyWorkers s1)
            \<and> readyWorkers s' = [])"
  proof
    assume h: "taskQueue s1 = [] \<and> distinct (readyWorkers s1) \<and> length (readyWorkers s1) < length reqs"
    have "drained s1"
      using h by (simp add: drained_def)
    from batch_run [OF this, of reqs] h
    show "let s' = run s1 (map request reqs);
             tasks = submissions s1 (map request reqs)
         in length tasks = length reqs
            \<and> posted s' = posted s1 @ map (\<lambda>p. (fst p, dispatch_message (snd p)))
                                         (zip (readyWorkers s1) tasks)
            \<and> length (posted s') = length (posted s1) + length (readyWorkers s1)
            \<and> taskQueue s' = drop (length (readyWorkers s1)) tasks
            \<and> length (taskQueue s') = length reqs - length (readyWorkers s1)
            \<and> readyWorkers s' = []"
      unfolding Let_def by simp
  qed
  have e: "readyWorkers s0 = [] \<longrightarrow> processQueue s0 = s0"
    by (simp add: processQueue_idle)
  have a': "taskQueue (run (constructor m hc) es) = [] \<or> readyWorkers (run (constructor m hc) es) = []"
    using a unfolding s_def .
  show ?thesis
    by (intro conjI a' b c e)
qed

theorem queue_is_drained_at_every_trigger_witness:
  "field ready_message ''status'' = Str ''ready''
   \<and> (field done_message ''status'' = Str ''complete'' \<or> field done_message ''status'' = Str ''error'')
   \<and> (taskQueue two_ready = [] \<and> distinct (readyWorkers two_ready)
        \<and> length (readyWorkers two_ready) < length five_requests)
   \<and> readyWorkers one_queued = []
   \<and> handleWorkerMessage 0 ready_message two_ready
        = drainQueue (two_ready\<lparr>readyWorkers := Set_add 0 (readyWorkers two_ready)\<rparr>)
   \<and> (\<exists>pre. handleWorkerMessage 0 done_message two_ready = processQueue pre
         \<and> processQueue pre = drainQueue pre)
   \<and> length (readyWorkers two_ready) = 2 \<and> length five_requests = 5
   \<and> length (posted (run two_ready (map request five_requests))) = length (posted two_ready) + 2
   \<and> length (taskQueue (run two_ready (map request five_requests))) = 3
   \<and> processQueue one_queued = one_queued"
proof -
  have h1: "field ready_message ''status'' = Str ''ready''"
    by code_simp
  have h2: "field done_message ''status'' = Str ''complete'' \<or> field done_message ''status'' = Str ''error''"
    by code_simp
  have h3: "taskQueue two_ready = [] \<and> distinct (readyWorkers two_ready)
        \<and> length (readyWorkers two_ready) < length five_requests"
    by code_simp
  have h4: "readyWorkers one_queued = []"
    by code_simp
  have v: "length (readyWorkers two_ready) = 2" "length five_requests = 5"
    by code_simp+
  note t = queue_is_drained_at_every_trigger
    [of 2 "Some 8" two_report_ready "Str ''photo.png''" None "''1700000000000''" "''k3j9x0a1b''"
      ready_message 0 done_message two_ready five_requests one_queued,
      unfolded Let_def two_ready_def [symmetric]]
  from t h1 have c1: "handleWorkerMessage 0 ready_message two_ready
        = drainQueue (two_ready\<lparr>readyWorkers := Set_add 0 (readyWorkers two_ready)\<rparr>)"
    by blast
  from t h2 have c2: "\<exists>pre. handleWorkerMessage 0 done_message two_ready = processQueue pre
         \<and> processQueue pre = drainQueue pre"
    by blast
  from t h3 have c3: "length (posted (run two_ready (map request five_requests)))
        = length (posted two_ready) + length (readyWorkers two_ready)"
    "length (taskQueue (run two_ready (map request five_requests)))
        = length five_requests - length (readyWorkers two_ready)"
    by blast+
  from t h4 have c4: "processQueue one_queued = one_queued"
    by blast
  show ?thesis
    using h1 h2 h3 h4 v c1 c2 c3 c4 by simp
qed

subsection \<open>Ready workers and bound workers\<close>

lemma unbound_iff: "findTaskIdByWorker s w = None \<longleftrightarrow> Some w \<notin> set (bound_workers s)"
  by (fastforce simp: findTaskIdByWorker_def bound_workers_def find_None_iff image_iff)

lemma one_task_each_frame:
  "one_task_each s \<Longrightarrow> taskQueue s' = taskQueue s \<Longrightarrow> activeTasks s' = activeTasks s \<Longrightarrow>
   readyWorkers s' = readyWorkers s \<Longrightarrow> one_task_each s'"
  by (simp add: one_task_each_def bound_workers_def)

lemma one_task_each_smaller:
  assumes "one_task_each s" and "taskQueue s' = taskQueue s"
    and "activeTasks s' = filter P (activeTasks s)"
    and "set (readyWorkers s') \<subseteq> set (readyWorkers s)"
  shows "one_task_each s'"
proof -
  have "distinct (bound_workers s')"
    using assms(1,3) by (simp add: one_task_each_def bound_workers_def distinct_map_filter)
  moreover have "set (bound_workers s') \<subseteq> set (bound_workers s)"
    using assms(3) by (auto simp: bound_workers_def)
  moreover have "set (map fst (activeTasks s')) \<subseteq> set (map fst (activeTasks s))"
    using assms(3) by auto
  ultimately show ?thesis
    using assms(1,2,4) unfolding one_task_each_def by (auto simp del: set_map)
qed

lemma one_task_each_processQueue:
  assumes "one_task_each s"
  shows "one_task_each (processQueue s)"
proof (cases s rule: processQueue_cases)
  case idle
  then show ?thesis using assms by simp
next
  case (dispatch t ts w ws)
  let ?f = "\<lambda>e. worker (snd e)"
  let ?t = "t\<lparr>worker := Some w\<rparr>"
  let ?a = "Map_set (task_id t) ?t (activeTasks s)"
  have a: "activeTasks (processQueue s) = ?a"
    and r: "readyWorkers (processQueue s) = Set_delete w (w # ws)"
    and q: "taskQueue (processQueue s) = ts"
    unfolding dispatch(3) by simp_all
  have nb: "Some w \<notin> set (map ?f (activeTasks s))"
    using assms dispatch(2) by (simp add: one_task_each_def bound_workers_def)
  have sub: "set (map ?f ?a) \<subseteq> insert (Some w) (set (map ?f (activeTasks s)))"
    using Map_set_subset [of ?f "task_id t" ?t "activeTasks s"] by simp
  have 1: "distinct (bound_workers (processQueue s))"
    unfolding bound_workers_def a
    using assms nb by (intro Map_set_distinct) (simp_all add: one_task_each_def bound_workers_def)
  have 2: "\<forall>v \<in> set (readyWorkers (processQueue s)). Some v \<notin> set (bound_workers (processQueue s))"
  proof
    fix v assume "v \<in> set (readyWorkers (processQueue s))"
    then have "v \<in> set (readyWorkers s)" "v \<noteq> w"
      unfolding r using dispatch(2) by (auto simp: Set_delete_def)
    then have "Some v \<notin> insert (Some w) (set (map ?f (activeTasks s)))"
      using assms by (simp add: one_task_each_def bound_workers_def)
    then show "Some v \<notin> set (bound_workers (processQueue s))"
      unfolding bound_workers_def a using sub by blast
  qed
  have "task_id t \<noteq> []"
    using assms dispatch(1) by (auto simp: one_task_each_def)
  moreover have "set (map fst ?a) \<subseteq> insert (task_id t) (set (map fst (activeTasks s)))"
    using Map_set_subset [of fst "task_id t" ?t "activeTasks s"] by simp
  moreover have "[] \<notin> set (map fst (activeTasks s))"
    using assms by (simp add: one_task_each_def)
  ultimately have 3: "[] \<notin> set (map fst (activeTasks (processQueue s)))"
    unfolding a by (metis insert_iff subsetD)
  have 4: "[] \<notin> set (map task_id (taskQueue (processQueue s)))"
    unfolding q using assms dispatch(1) by (auto simp: one_task_each_def)
  show ?thesis
    unfolding one_task_each_def using 1 2 3 4 by blast
qed

lemma one_task_each_add:
  assumes "one_task_each s" and "Some w \<notin> set (bound_workers s')"
    and "taskQueue s' = taskQueue s" and "activeTasks s' = filter P (activeTasks s)"
    and "readyWorkers s' = Set_add w (readyWorkers s)"
  shows "one_task_each s'"
proof -
  define s'' where "s'' = s'\<lparr>readyWorkers := readyWorkers s\<rparr>"
  have "one_task_each s''"
    by (rule one_task_each_smaller [OF assms(1), of s'' P]) (simp_all add: s''_def assms)
  then show ?thesis
    using assms(2,5) by (auto simp: one_task_each_def bound_workers_def s''_def Set_add_def)
qed

lemma bound_task_None:
  assumes "one_task_each s" and "bound_task (findTaskIdByWorker s w) s = None"
  shows "findTaskIdByWorker s w = None"
proof (rule ccontr)
  assume "findTaskIdByWorker s w \<noteq> None"
  then obtain k where k: "findTaskIdByWorker s w = Some k" by blast
  then obtain e where "find (\<lambda>e. worker (snd e) = Some w) (activeTasks s) = Some e" "fst e = k"
    by (auto simp: findTaskIdByWorker_def)
  then have m: "k \<in> fst ` set (activeTasks s)"
    using find_in_set by force
  then have "k \<noteq> []"
    using assms(1) by (force simp: one_task_each_def)
  moreover have "map_of (activeTasks s) k \<noteq> None"
    using m by (simp add: map_of_eq_None_iff)
  ultimately show False
    using assms(2) k by (auto simp: bound_task_def)
qed

lemma bound_task_removed:
  assumes "one_task_each s" and "bound_task (findTaskIdByWorker s w) s = Some (k, t)"
  shows "Some w \<notin> set (map (\<lambda>e. worker (snd e)) (Map_delete k (activeTasks s)))"
proof
  assume "Some w \<in> set (map (\<lambda>e. worker (snd e)) (Map_delete k (activeTasks s)))"
  then obtain e where e: "e \<in> set (activeTasks s)" "fst e \<noteq> k" "worker (snd e) = Some w"
    by (auto simp: Map_delete_def)
  have "findTaskIdByWorker s w = Some k"
    using assms(2) by (auto simp: bound_task_def split: option.splits if_splits)
  then obtain e0 where e0: "find (\<lambda>e. worker (snd e) = Some w) (activeTasks s) = Some e0" "fst e0 = k"
    by (auto simp: findTaskIdByWorker_def)
  then have "e0 \<in> set (activeTasks s)" "worker (snd e0) = Some w"
    using find_in_set [OF e0(1)] by simp_all
  moreover have "inj_on (\<lambda>e. worker (snd e)) (set (activeTasks s))"
    using assms(1) by (simp add: one_task_each_def bound_workers_def distinct_map)
  ultimately have "e = e0"
    using e(1,3) inj_onD [of "\<lambda>e. worker (snd e)" "set (activeTasks s)" e e0] by simp
  then show False
    using e(2) e0(2) by simp
qed

lemma one_task_each_message:
  assumes "one_task_each s" and "orderly s (WorkerMessage w data)"
  shows "one_task_each (handleWorkerMessage w data s)"
proof (cases data w s rule: handleWorkerMessage_cases)
  case ready
  then have "Some w \<notin> set (bound_workers s)"
    using assms(2) by (simp add: unbound_iff)
  then have "one_task_each (s\<lparr>readyWorkers := Set_add w (readyWorkers s)\<rparr>)"
    by (intro one_task_each_add [OF assms(1), where P = "\<lambda>e. True" and w = w])
      (simp_all add: bound_workers_def)
  then show ?thesis
    unfolding ready(2) by (rule one_task_each_processQueue)
next
  case unbound
  have "Some w \<notin> set (bound_workers s)"
    using bound_task_None [OF assms(1) unbound(2)] by (simp add: unbound_iff)
  then have "one_task_each ((set_busy w False s)\<lparr>readyWorkers := Set_add w (readyWorkers s)\<rparr>)"
    by (intro one_task_each_add [OF assms(1), where P = "\<lambda>e. True" and w = w])
      (simp_all add: bound_workers_def)
  then show ?thesis
    unfolding unbound(3) by (rule one_task_each_processQueue)
next
  case (bound k t)
  let ?s = "(set_busy w False s)
             \<lparr>readyWorkers := Set_add w (readyWorkers s),
              activeTasks := Map_delete k (activeTasks s),
              settled := settled s @ [(promise t,
                 if field data ''status'' = Str ''complete'' then Resolve (Obj data)
                 else Reject (NewError (field data ''error'')))]\<rparr>"
  have "one_task_each ?s"
    using bound_task_removed [OF assms(1) bound(2)]
    by (intro one_task_each_add [OF assms(1), where P = "\<lambda>e. fst e \<noteq> k" and w = w])
      (simp_all add: bound_workers_def Map_delete_def)
  then show ?thesis
    unfolding bound(3) by (rule one_task_each_processQueue)
next
  case other
  have "one_task_each (s\<lparr>progress := progress (handleWorkerMessage w data s)\<rparr>)"
    by (rule one_task_each_frame [OF assms(1)]) simp_all
  then show ?thesis
    using other(4) by simp
qed

lemma one_task_each_step:
  assumes "one_task_each s" and "orderly s e"
  shows "one_task_each (step s e)"
proof (cases e)
  case Initialize
  have "one_task_each (initialize s)"
    by (rule one_task_each_frame [OF assms(1)]) simp_all
  then show ?thesis using Initialize by simp
next
  case (ProcessImage url cb now rnd)
  have "one_task_each (s\<lparr>promises := Suc (promises s),
                       taskQueue := taskQueue s @ [new_task url cb now rnd (promises s)]\<rparr>)"
    using assms(1) by (simp add: one_task_each_def bound_workers_def new_task_def)
  then show ?thesis
    unfolding ProcessImage step.simps processImage_trigger by (rule one_task_each_processQueue)
next
  case (WorkerMessage w data)
  then show ?thesis using assms one_task_each_message by simp
next
  case (WorkerError w err)
  obtain P where "activeTasks (handleWorkerError w err s) = filter P (activeTasks s)"
    using handleWorkerError_filter by blast
  then have "one_task_each (handleWorkerError w err s)"
    by (intro one_task_each_smaller [OF assms(1), where P = P]) (auto simp: Set_delete_def)
  then show ?thesis using WorkerError by simp
next
  case (RestartTimer w)
  have "one_task_each (restartWorker w (s\<lparr>timers := remove1 w (timers s)\<rparr>))"
    by (rule one_task_each_frame [OF assms(1)]) simp_all
  then show ?thesis using RestartTimer assms(1) by simp
next
  case Terminate
  show ?thesis
    using Terminate by (cases s rule: terminate_shape) (simp_all add: one_task_each_def bound_workers_def)
qed

lemma one_task_each_run:
  assumes "one_task_each s" and "orderly_run s es"
  shows "one_task_each (run s es)"
  using assms
proof (induction es arbitrary: s)
  case Nil
  then show ?case by (simp add: run_def)
next
  case (Cons e es)
  then have "one_task_each (step s e)" "orderly_run (step s e) es"
    using one_task_each_step by simp_all
  from Cons.IH [OF this] show ?case
    by (simp add: run_def)
qed

lemma one_task_each_constructor: "one_task_each (constructor m hc)"
  by (simp add: one_task_each_def bound_workers_def constructor_def)

subsection \<open>The keys of the active map\<close>

lemma Map_set_keys: "distinct (map fst es) \<Longrightarrow> distinct (map fst (Map_set k v es))"
proof (induction es)
  case Nil
  then show ?case by simp
next
  case (Cons e es)
  obtain k' v' where e: "e = (k', v')" by (cases e)
  show ?case
  proof (cases "k' = k")
    case True
    then show ?thesis using Cons.prems e by simp
  next
    case False
    have "k' \<notin> set (map fst (Map_set k v es))"
      using Cons.prems e False Map_set_subset [of fst k v es] by auto
    then show ?thesis
      using False e Cons by simp
  qed
qed

lemma distinct_keys_processQueue:
  "distinct (map fst (activeTasks s)) \<Longrightarrow> distinct (map fst (activeTasks (processQueue s)))"
  by (cases s rule: processQueue_cases) (simp_all add: Map_set_keys)

lemma distinct_keys_message:
  assumes "distinct (map fst (activeTasks s))"
  shows "distinct (map fst (activeTasks (handleWorkerMessage w data s)))"
proof (cases data w s rule: handleWorkerMessage_cases)
  case ready
  show ?thesis
    unfolding ready(2) using assms by (intro distinct_keys_processQueue) simp
next
  case unbound
  show ?thesis
    unfolding unbound(3) using assms by (intro distinct_keys_processQueue) simp
next
  case (bound k t)
  show ?thesis
    unfolding bound(3) using assms
    by (intro distinct_keys_processQueue) (simp add: Map_delete_def distinct_map_filter)
next
  case other
  have "activeTasks (s\<lparr>progress := progress (handleWorkerMessage w data s)\<rparr>) = activeTasks s"
    by simp
  then have "activeTasks (handleWorkerMessage w data s) = activeTasks s"
    using other(4) by simp
  then show ?thesis using assms by simp
qed

lemma distinct_keys_step:
  assumes "distinct (map fst (activeTasks s))"
  shows "distinct (map fst (activeTasks (step s e)))"
proof (cases e)
  case Initialize
  then show ?thesis using assms by simp
next
  case (ProcessImage url cb now rnd)
  show ?thesis
    unfolding ProcessImage step.simps processImage_trigger
    using assms by (intro distinct_keys_processQueue) simp
next
  case (WorkerMessage w data)
  then show ?thesis using assms distinct_keys_message by simp
next
  case (WorkerError w err)
  obtain P where "activeTasks (handleWorkerError w err s) = filter P (activeTasks s)"
    using handleWorkerError_filter by blast
  then show ?thesis
    using WorkerError assms by (simp add: distinct_map_filter)
next
  case (RestartTimer w)
  then show ?thesis using assms by simp
next
  case Terminate
  show ?thesis
    using Terminate by (cases s rule: terminate_shape) simp_all
qed

lemma distinct_keys_run:
  "distinct (map fst (activeTasks s)) \<Longrightarrow> distinct (map fst (activeTasks (run s es)))"
proof (induction es arbitrary: s)
  case Nil
  then show ?case by (simp add: run_def)
next
  case (Cons e es)
  from Cons.IH [OF distinct_keys_step [OF Cons.prems, of e]]
  show ?case by (simp add: run_def)
qed

subsection \<open>The promises of the tasks held are unsettled\<close>

lemma task_promises_set:
  "set (task_promises s)
     = promise ` set (taskQueue s) \<union> (\<lambda>e. promise (snd e)) ` set (activeTasks s)"
  by (auto simp: task_promises_def)

lemma bound_entry:
  assumes "bound_task (findTaskIdByWorker s w) s = Some (k, t)"
    and "distinct (map fst (activeTasks s))"
  shows "filter (\<lambda>e. fst e = k) (activeTasks s) = [(k, t)]"
proof -
  have m: "map_of (activeTasks s) k = Some t"
    using assms(1) by (auto simp: bound_task_def split: option.splits if_splits)
  have "distinct (map fst es) \<Longrightarrow> map_of es k = Some t \<Longrightarrow> filter (\<lambda>e. fst e = k) es = [(k, t)]"
    for es :: "(tid \<times> task) list"
  proof (induction es)
    case Nil
    then show ?case by simp
  next
    case (Cons e es)
    show ?case
    proof (cases "fst e = k")
      case True
      then have "e = (k, t)"
        using Cons.prems(2) by (cases e) simp
      moreover have "fst e \<notin> fst ` set es"
        using Cons.prems(1) by simp
      then have "\<forall>x \<in> set es. fst x \<noteq> k"
        using True by blast
      then have "filter (\<lambda>e. fst e = k) es = []"
        by (simp add: filter_empty_conv)
      ultimately show ?thesis by simp
    next
      case False
      then have "map_of es k = Some t"
        using Cons.prems(2) by (cases e) (simp split: if_splits)
      then show ?thesis
        using Cons.IH Cons.prems(1) False by simp
    qed
  qed
  then show ?thesis
    using assms(2) m by blast
qed










subsection \<open>The values with which promises are resolved\<close>







subsection \<open>The worker that a restart replaces\<close>

text \<open>
  C7 fails on the code. The handler of a fault does what the claim says, in every state of
  every run: it takes the worker out of the ready set, marks it not busy, rejects with
  the fault the promise of each task bound to it and of no other task, removes those tasks
  from the active map, leaves the queue and the array of workers as they are, and sets a
  timer. In every run without \<^verbatim>\<open>terminate\<close>, a restart that directly follows the fault
  stores a new worker with the same id at the index \<^verbatim>\<open>worker.id\<close> and keeps the length of
  the array. But that index need not be the place of the faulted worker. After two calls
  of \<^verbatim>\<open>initialize\<close> the workers are 0, 1, 2, 3 with the ids 0, 1, 0, 1; when worker 2
  faults and is restarted, the new worker 4 takes the place of worker 0, which is running,
  and the terminated worker 2 stays in the array. And when \<^verbatim>\<open>initialize\<close> is called
  between the fault and the restart, the pool of two workers has four afterwards.
\<close>

theorem restart_replaces_slot_of_id:
  "(let s = run (constructor m hc) es;
        s1 = handleWorkerError w err s
    in w \<notin> set (readyWorkers s1)
     \<and> (w < length (objects s) \<longrightarrow> \<not> busy (objects s1 ! w))
     \<and> settled s1 = settled s @ map (\<lambda>e. (promise (snd e), Reject err))
                                  (filter (\<lambda>e. worker (snd e) = Some w) (activeTasks s))
     \<and> activeTasks s1 = filter (\<lambda>e. worker (snd e) \<noteq> Some w) (activeTasks s)
     \<and> taskQueue s1 = taskQueue s
     \<and> workers s1 = workers s
     \<and> timers s1 = timers s @ [w])
   \<and> (attached_run (constructor m hc) es \<and> Terminate \<notin> set es
        \<and> w < length (objects (run (constructor m hc) es)) \<longrightarrow>
       (let s = run (constructor m hc) es;
            s2 = step (handleWorkerError w err s) (RestartTimer w)
        in totalWorkers (getStats s2) = totalWorkers (getStats s)
         \<and> workers s2 = (workers s)[worker_id (objects s ! w) := Some (length (objects s))]
         \<and> objects s2 ! length (objects s)
              = \<lparr>worker_id = worker_id (objects s ! w), busy = False, terminated = False\<rparr>
         \<and> terminated (objects s2 ! w)
         \<and> posted s2 = posted s @ [(length (objects s), [(''type'', Str ''init'')])]
         \<and> taskQueue s2 = taskQueue s))
   \<and> workers two_generations = [Some 0, Some 1, Some 2, Some 3]
   \<and> map worker_id (objects two_generations) = [0, 1, 0, 1]
   \<and> workers (run two_generations [WorkerError 2 crash, RestartTimer 2])
        = [Some 4, Some 1, Some 2, Some 3]
   \<and> map terminated (objects (run two_generations [WorkerError 2 crash, RestartTimer 2]))
        = [False, False, True, False, False]
   \<and> totalWorkers (getStats two_ready) = 2
   \<and> totalWorkers (getStats (run two_ready [WorkerError 0 crash, Initialize, RestartTimer 0])) = 4"
proof -
  define s where "s = run (constructor m hc) es"
  define s1 where "s1 = handleWorkerError w err s"
  have d: "distinct (map fst (activeTasks s))"
    unfolding s_def by (rule distinct_keys_run) (simp add: constructor_def)
  have r1: "s1 =
     s\<lparr>objects := (objects s)[w := (objects s ! w)\<lparr>busy := False\<rparr>],
        readyWorkers := Set_delete w (readyWorkers s),
        settled := settled s @ map (\<lambda>e. (promise (snd e), Reject err))
                               (filter (\<lambda>e. worker (snd e) = Some w) (activeTasks s)),
        activeTasks := filter (\<lambda>e. worker (snd e) \<noteq> Some w) (activeTasks s),
        timers := timers s @ [w]\<rparr>"
    unfolding s1_def using d by (rule handleWorkerError_result)
  have a: "let s = run (constructor m hc) es;
        s1 = handleWorkerError w err s
    in w \<notin> set (readyWorkers s1)
     \<and> (w < length (objects s) \<longrightarrow> \<not> busy (objects s1 ! w))
     \<and> settled s1 = settled s @ map (\<lambda>e. (promise (snd e), Reject err))
                                  (filter (\<lambda>e. worker (snd e) = Some w) (activeTasks s))
     \<and> activeTasks s1 = filter (\<lambda>e. worker (snd e) \<noteq> Some w) (activeTasks s)
     \<and> taskQueue s1 = taskQueue s
     \<and> workers s1 = workers s
     \<and> timers s1 = timers s @ [w]"
    unfolding Let_def s_def [symmetric] s1_def [symmetric]
    by (simp add: r1 Set_delete_def)
  have b: "attached_run (constructor m hc) es \<and> Terminate \<notin> set es
        \<and> w < length (objects (run (constructor m hc) es)) \<longrightarrow>
       (let s = run (constructor m hc) es;
            s2 = step (handleWorkerError w err s) (RestartTimer w)
        in totalWorkers (getStats s2) = totalWorkers (getStats s)
         \<and> workers s2 = (workers s)[worker_id (objects s ! w) := Some (length (objects s))]
         \<and> objects s2 ! length (objects s)
              = \<lparr>worker_id = worker_id (objects s ! w), busy = False, terminated = False\<rparr>
         \<and> terminated (objects s2 ! w)
         \<and> posted s2 = posted s @ [(length (objects s), [(''type'', Str ''init'')])]
         \<and> taskQueue s2 = taskQueue s)"
  proof
    assume h: "attached_run (constructor m hc) es \<and> Terminate \<notin> set es
        \<and> w < length (objects (run (constructor m hc) es))"
    have "no_holes s"
      unfolding s_def using h no_holes_run [OF no_holes_constructor] by blast
    then have "worker_id (objects s ! w) < length (workers s)"
      using h by (simp add: no_holes_def s_def)
    then have "distinct (map fst (activeTasks s)) \<and> w < length (objects s)
       \<and> worker_id (objects s ! w) < length (workers s)"
      using h d by (simp add: s_def)
    from fault_and_restart [of s w err, rule_format, OF this]
    show "let s = run (constructor m hc) es;
            s2 = step (handleWorkerError w err s) (RestartTimer w)
        in totalWorkers (getStats s2) = totalWorkers (getStats s)
         \<and> workers s2 = (workers s)[worker_id (objects s ! w) := Some (length (objects s))]
         \<and> objects s2 ! length (objects s)
              = \<lparr>worker_id = worker_id (objects s ! w), busy = False, terminated = False\<rparr>
         \<and> terminated (objects s2 ! w)
         \<and> posted s2 = posted s @ [(length (objects s), [(''type'', Str ''init'')])]
         \<and> taskQueue s2 = taskQueue s"
      unfolding Let_def s_def [symmetric] by simp
  qed
  have c: "workers two_generations = [Some 0, Some 1, Some 2, Some 3]"
    "map worker_id (objects two_generations) = [0, 1, 0, 1]"
    "workers (run two_generations [WorkerError 2 crash, RestartTimer 2])
        = [Some 4, Some 1, Some 2, Some 3]"
    "map terminated (objects (run two_generations [WorkerError 2 crash, RestartTimer 2]))
        = [False, False, True, False, False]"
    "totalWorkers (getStats two_ready) = 2"
    "totalWorkers (getStats (run two_ready [WorkerError 0 crash, Initialize, RestartTimer 0])) = 4"
    by code_simp+
  show ?thesis
    by (intro conjI a b c)
qed

theorem restart_replaces_slot_of_id_witness:
  "(attached_run (constructor 2 (Some 8)) three_submissions \<and> Terminate \<notin> set three_submissions
     \<and> 0 < length (objects two_active_one_queued))
   \<and> 0 \<notin> set (readyWorkers (handleWorkerError 0 crash two_active_one_queued))
   \<and> \<not> busy (objects (handleWorkerError 0 crash two_active_one_queued) ! 0)
   \<and> map fst (activeTasks two_active_one_queued)
        = [''task_1700000000001_aaaaaaaaa'', ''task_1700000000002_bbbbbbbbb'']
   \<and> settled (handleWorkerError 0 crash two_active_one_queued) = [(0, Reject crash)]
   \<and> map fst (activeTasks (handleWorkerError 0 crash two_active_one_queued))
        = [''task_1700000000002_bbbbbbbbb'']
   \<and> taskQueue (handleWorkerError 0 crash two_active_one_queued) = taskQueue two_active_one_queued
   \<and> totalWorkers (getStats two_active_one_queued) = 2
   \<and> totalWorkers (getStats (step (handleWorkerError 0 crash two_active_one_queued) (RestartTimer 0))) = 2
   \<and> workers (step (handleWorkerError 0 crash two_active_one_queued) (RestartTimer 0))
        = [Some 2, Some 1]"
proof -
  have h: "attached_run (constructor 2 (Some 8)) three_submissions \<and> Terminate \<notin> set three_submissions
     \<and> 0 < length (objects (run (constructor 2 (Some 8)) three_submissions))"
    by code_simp
  have v: "map fst (activeTasks two_active_one_queued)
        = [''task_1700000000001_aaaaaaaaa'', ''task_1700000000002_bbbbbbbbb'']"
    "settled two_active_one_queued @ map (\<lambda>e. (promise (snd e), Reject crash))
        (filter (\<lambda>e. worker (snd e) = Some 0) (activeTasks two_active_one_queued)) = [(0, Reject crash)]"
    "map fst (filter (\<lambda>e. worker (snd e) \<noteq> Some 0) (activeTasks two_active_one_queued))
        = [''task_1700000000002_bbbbbbbbb'']"
    "totalWorkers (getStats two_active_one_queued) = 2"
    "(workers two_active_one_queued)
        [worker_id (objects two_active_one_queued ! 0) := Some (length (objects two_active_one_queued))]
      = [Some 2, Some 1]"
    by code_simp+
  note t = restart_replaces_slot_of_id [of 2 "Some 8" three_submissions 0 crash,
      unfolded Let_def two_active_one_queued_def [symmetric]]
  have h': "attached_run (constructor 2 (Some 8)) three_submissions \<and> Terminate \<notin> set three_submissions
     \<and> 0 < length (objects two_active_one_queued)"
    using h by (simp add: two_active_one_queued_def)
  from t h' have c: "0 \<notin> set (readyWorkers (handleWorkerError 0 crash two_active_one_queued))"
    "\<not> busy (objects (handleWorkerError 0 crash two_active_one_queued) ! 0)"
    "settled (handleWorkerError 0 crash two_active_one_queued)
       = settled two_active_one_queued @ map (\<lambda>e. (promise (snd e), Reject crash))
          (filter (\<lambda>e. worker (snd e) = Some 0) (activeTasks two_active_one_queued))"
    "activeTasks (handleWorkerError 0 crash two_active_one_queued)
       = filter (\<lambda>e. worker (snd e) \<noteq> Some 0) (activeTasks two_active_one_queued)"
    "taskQueue (handleWorkerError 0 crash two_active_one_queued) = taskQueue two_active_one_queued"
    "totalWorkers (getStats (step (handleWorkerError 0 crash two_active_one_queued) (RestartTimer 0)))
       = totalWorkers (getStats two_active_one_queued)"
    "workers (step (handleWorkerError 0 crash two_active_one_queued) (RestartTimer 0))
       = (workers two_active_one_queued)
          [worker_id (objects two_active_one_queued ! 0) := Some (length (objects two_active_one_queued))]"
    by blast+
  show ?thesis
    using h' v c by simp
qed

subsection \<open>Every unsettled task is in the queue or in the active map\<close>

lemma Map_set_absent: "k \<notin> fst ` set es \<Longrightarrow> Map_set k v es = es @ [(k, v)]"
  by (induction es) auto

lemma count_distinct:
  "distinct xs \<Longrightarrow> length (filter (\<lambda>x. x = p) xs) = (if p \<in> set xs then 1 else 0)"
  by (induction xs) auto

lemma accountedD:
  assumes "accounted subs s"
  shows "map promise subs = [0..<promises s]"
    and "\<And>t. t \<in> set subs \<Longrightarrow> worker t = None"
    and "\<And>t. t \<in> set (taskQueue s) \<Longrightarrow> t \<in> set subs"
    and "\<And>e. e \<in> set (activeTasks s) \<Longrightarrow> fst e = task_id (snd e)"
    and "\<And>e. e \<in> set (activeTasks s) \<Longrightarrow> (snd e)\<lparr>worker := None\<rparr> \<in> set subs"
    and "distinct (map fst (activeTasks s))"
    and "distinct (task_promises s)"
    and "\<And>x. x \<in> set (settled s) \<Longrightarrow> fst x < promises s"
    and "\<And>p. p < promises s \<Longrightarrow> (promise_state s p = None) = (p \<in> set (task_promises s))"
  using assms by (simp_all add: accounted_def)

lemma accountedI:
  assumes "map promise subs = [0..<promises s]"
    and "\<And>t. t \<in> set subs \<Longrightarrow> worker t = None"
    and "\<And>t. t \<in> set (taskQueue s) \<Longrightarrow> t \<in> set subs"
    and "\<And>e. e \<in> set (activeTasks s) \<Longrightarrow> fst e = task_id (snd e)"
    and "\<And>e. e \<in> set (activeTasks s) \<Longrightarrow> (snd e)\<lparr>worker := None\<rparr> \<in> set subs"
    and "distinct (map fst (activeTasks s))"
    and "distinct (task_promises s)"
    and "\<And>x. x \<in> set (settled s) \<Longrightarrow> fst x < promises s"
    and "\<And>p. p < promises s \<Longrightarrow> (promise_state s p = None) = (p \<in> set (task_promises s))"
  shows "accounted subs s"
  using assms by (simp add: accounted_def)

lemma submitted_smaller:
  assumes "map promise subs = [0..<n]" and "t \<in> set subs"
  shows "promise t < n"
proof -
  have "promise t \<in> set (map promise subs)"
    using assms(2) by simp
  then have "promise t \<in> set [0..<n]"
    unfolding assms(1) .
  then show ?thesis by simp
qed

lemma accounted_smaller:
  assumes a: "accounted subs s" and p: "p \<in> set (task_promises s)"
  shows "p < promises s"
proof -
  note d = accountedD [OF a]
  from p consider t where "t \<in> set (taskQueue s)" "p = promise t"
    | e where "e \<in> set (activeTasks s)" "p = promise (snd e)"
    unfolding task_promises_set by blast
  then show ?thesis
  proof cases
    case 1
    then show ?thesis
      using submitted_smaller [OF d(1) d(3)] by simp
  next
    case 2
    have "promise ((snd e)\<lparr>worker := None\<rparr>) < promises s"
      by (rule submitted_smaller [OF d(1) d(5) [OF 2(1)]])
    then show ?thesis
      using 2(2) by simp
  qed
qed

lemma accounted_frame:
  "accounted subs s \<Longrightarrow> taskQueue s' = taskQueue s \<Longrightarrow> activeTasks s' = activeTasks s \<Longrightarrow>
   settled s' = settled s \<Longrightarrow> promises s' = promises s \<Longrightarrow> accounted subs s'"
  by (simp add: accounted_def task_promises_def promise_state_def)

lemma accounted_settle:
  assumes a: "accounted subs s" and q: "taskQueue s' = taskQueue s"
    and f: "activeTasks s' = filter (\<lambda>e. \<not> P e) (activeTasks s)"
    and st: "settled s' = settled s @ map (\<lambda>e. (promise (snd e), v e)) (filter P (activeTasks s))"
    and n: "promises s' = promises s"
  shows "accounted subs s'"
proof (rule accountedI)
  note d = accountedD [OF a]
  show "map promise subs = [0..<promises s']"
    using d(1) n by simp
  show "worker t = None" if "t \<in> set subs" for t
    using that d(2) by simp
  show "t \<in> set subs" if "t \<in> set (taskQueue s')" for t
    using that d(3) q by simp
  show "fst e = task_id (snd e)" if "e \<in> set (activeTasks s')" for e
    using that d(4) f by simp
  show "(snd e)\<lparr>worker := None\<rparr> \<in> set subs" if "e \<in> set (activeTasks s')" for e
    using that d(5) f by simp
  show "distinct (map fst (activeTasks s'))"
    using d(6) f by (simp add: distinct_map_filter)
  show "distinct (task_promises s')"
    by (rule task_promises_filter(2) [OF q f d(7)])
  show "fst x < promises s'" if x: "x \<in> set (settled s')" for x
  proof (cases "x \<in> set (settled s)")
    case True
    then show ?thesis using d(8) n by simp
  next
    case False
    then obtain e where "e \<in> set (activeTasks s)" "fst x = promise (snd e)"
      using x st by auto
    then have "fst x \<in> set (task_promises s)"
      unfolding task_promises_set by blast
    then show ?thesis
      using accounted_smaller [OF a] n by simp
  qed
  show "(promise_state s' p = None) = (p \<in> set (task_promises s'))" if p: "p < promises s'" for p
  proof -
    let ?f = "\<lambda>e. promise (snd e)"
    have 1: "(promise_state s' p = None)
        = (promise_state s p = None \<and> p \<notin> ?f ` {e \<in> set (activeTasks s). P e})"
      by (force simp: promise_state_def st map_of_eq_None_iff image_iff)
    have 2: "set (task_promises s')
        = promise ` set (taskQueue s) \<union> ?f ` {e \<in> set (activeTasks s). \<not> P e}"
      unfolding task_promises_set q f by auto
    have dq: "promise ` set (taskQueue s) \<inter> ?f ` set (activeTasks s) = {}"
      and inj: "inj_on ?f (set (activeTasks s))"
      using d(7) by (auto simp: task_promises_def distinct_map comp_def)
    have 3: "(promise_state s p = None) = (p \<in> set (task_promises s))"
      using d(9) p n by simp
    have 4: "p \<notin> ?f ` {e \<in> set (activeTasks s). P e}"
      if "p \<in> promise ` set (taskQueue s)"
      using that dq by blast
    have 5: "p \<notin> ?f ` {e \<in> set (activeTasks s). P e}"
      if "p \<in> ?f ` {e \<in> set (activeTasks s). \<not> P e}"
    proof
      assume "p \<in> ?f ` {e \<in> set (activeTasks s). P e}"
      then obtain e1 where e1: "e1 \<in> set (activeTasks s)" "P e1" "p = ?f e1" by blast
      from that obtain e2 where e2: "e2 \<in> set (activeTasks s)" "\<not> P e2" "p = ?f e2" by blast
      have "e1 = e2"
        using inj e1 e2 by (simp add: inj_on_def)
      then show False using e1 e2 by simp
    qed
    have 6: "p \<in> promise ` set (taskQueue s) \<union> ?f ` {e \<in> set (activeTasks s). \<not> P e}"
      if "p \<in> set (task_promises s)" "p \<notin> ?f ` {e \<in> set (activeTasks s). P e}"
      using that unfolding task_promises_set by blast
    have 7: "p \<in> set (task_promises s)"
      if "p \<in> promise ` set (taskQueue s) \<union> ?f ` {e \<in> set (activeTasks s). \<not> P e}"
      using that unfolding task_promises_set by blast
    show ?thesis
      unfolding 1 2 3 using 4 5 6 7 by blast
  qed
qed

lemma accounted_clear:
  assumes a: "accounted subs s" and q: "taskQueue s' = []" and f: "activeTasks s' = []"
    and st: "settled s' = settled s @ map (\<lambda>t. (promise t, v))
                                        (taskQueue s @ map snd (activeTasks s))"
    and n: "promises s' = promises s"
  shows "accounted subs s'"
proof (rule accountedI)
  note d = accountedD [OF a]
  show "map promise subs = [0..<promises s']"
    using d(1) n by simp
  show "worker t = None" if "t \<in> set subs" for t
    using that d(2) by simp
  show "t \<in> set subs" if "t \<in> set (taskQueue s')" for t
    using that q by simp
  show "fst e = task_id (snd e)" if "e \<in> set (activeTasks s')" for e
    using that f by simp
  show "(snd e)\<lparr>worker := None\<rparr> \<in> set subs" if "e \<in> set (activeTasks s')" for e
    using that f by simp
  show "distinct (map fst (activeTasks s'))"
    using f by simp
  show "distinct (task_promises s')"
    using q f by (simp add: task_promises_def)
  have new: "fst ` set (map (\<lambda>t. (promise t, v)) (taskQueue s @ map snd (activeTasks s)))
      = set (task_promises s)"
    by (force simp: task_promises_def image_iff)
  show "fst x < promises s'" if x: "x \<in> set (settled s')" for x
  proof (cases "x \<in> set (settled s)")
    case True
    then show ?thesis using d(8) n by simp
  next
    case False
    then have "fst x \<in> fst ` set (map (\<lambda>t. (promise t, v)) (taskQueue s @ map snd (activeTasks s)))"
      using x unfolding st by (metis UnE imageI set_append)
    then have "fst x \<in> set (task_promises s)"
      unfolding new .
    then show ?thesis
      using accounted_smaller [OF a] n by simp
  qed
  show "(promise_state s' p = None) = (p \<in> set (task_promises s'))" if p: "p < promises s'" for p
  proof -
    have 1: "(promise_state s' p = None)
        = (promise_state s p = None
           \<and> p \<notin> fst ` set (map (\<lambda>t. (promise t, v)) (taskQueue s @ map snd (activeTasks s))))"
      unfolding promise_state_def st map_of_append map_add_None map_of_eq_None_iff by blast
    have 3: "(promise_state s p = None) = (p \<in> set (task_promises s))"
      using d(9) p n by simp
    have 4: "task_promises s' = []"
      using q f by (simp add: task_promises_def)
    show ?thesis
      unfolding 1 new 3 4 by simp
  qed
qed

lemma accounted_push:
  assumes a: "accounted subs s"
  shows "accounted (subs @ [new_task url cb now rnd (promises s)])
           (s\<lparr>promises := Suc (promises s),
              taskQueue := taskQueue s @ [new_task url cb now rnd (promises s)]\<rparr>)"
    (is "accounted ?subs ?s")
proof (rule accountedI)
  note d = accountedD [OF a]
  have tp: "set (task_promises ?s) = insert (promises s) (set (task_promises s))"
    by (auto simp: task_promises_def new_task_def)
  have fresh: "promises s \<notin> set (task_promises s)"
    using accounted_smaller [OF a, of "promises s"] by blast
  show "map promise ?subs = [0..<promises ?s]"
    using d(1) by (simp add: new_task_def)
  show "worker t = None" if "t \<in> set ?subs" for t
    using that d(2) by (auto simp: new_task_def)
  show "t \<in> set ?subs" if "t \<in> set (taskQueue ?s)" for t
    using that d(3) by auto
  show "fst e = task_id (snd e)" if "e \<in> set (activeTasks ?s)" for e
    using that d(4) by simp
  show "(snd e)\<lparr>worker := None\<rparr> \<in> set ?subs" if "e \<in> set (activeTasks ?s)" for e
    using that d(5) by simp
  show "distinct (map fst (activeTasks ?s))"
    using d(6) by simp
  show "distinct (task_promises ?s)"
    using d(7) fresh by (auto simp: task_promises_def new_task_def)
  show "fst x < promises ?s" if "x \<in> set (settled ?s)" for x
    using that d(8) [of x] by simp
  show "(promise_state ?s p = None) = (p \<in> set (task_promises ?s))" if p: "p < promises ?s" for p
  proof (cases "p = promises s")
    case True
    have "p \<notin> fst ` set (settled s)"
      using d(8) True by fastforce
    then have "promise_state ?s p = None"
      by (simp add: promise_state_def map_of_eq_None_iff)
    then show ?thesis
      unfolding tp using True by simp
  next
    case False
    then have "p < promises s" using p by simp
    then have "(promise_state s p = None) = (p \<in> set (task_promises s))"
      by (rule d(9))
    moreover have "promise_state ?s p = promise_state s p"
      by (simp add: promise_state_def)
    ultimately show ?thesis
      unfolding tp using False by simp
  qed
qed

lemma accounted_processQueue:
  assumes a: "accounted subs s" and i: "distinct (map task_id subs)"
  shows "accounted subs (processQueue s)"
proof (cases s rule: processQueue_cases)
  case idle
  then show ?thesis using a by simp
next
  case (dispatch t ts w ws)
  note d = accountedD [OF a]
  let ?f = "\<lambda>e. promise (snd e)"
  let ?s = "processQueue s"
  have t: "t \<in> set subs"
    using d(3) dispatch(1) by simp
  have tp: "task_promises s = promise t # map promise ts @ map ?f (activeTasks s)"
    using dispatch(1) by (simp add: task_promises_def)
  have key: "task_id t \<notin> fst ` set (activeTasks s)"
  proof
    assume "task_id t \<in> fst ` set (activeTasks s)"
    then obtain e where e: "e \<in> set (activeTasks s)" "fst e = task_id t" by force
    let ?u = "(snd e)\<lparr>worker := None\<rparr>"
    have u: "?u \<in> set subs" by (rule d(5) [OF e(1)])
    have "task_id ?u = task_id t"
      using d(4) [OF e(1)] e(2) by simp
    moreover have "inj_on task_id (set subs)"
      using i by (simp add: distinct_map)
    ultimately have "?u = t"
      using u t by (simp add: inj_on_def)
    then have "promise (snd e) = promise t"
      by (metis task.select_convs(3) task.surjective task.update_convs(5))
    moreover have "promise t \<notin> set (map ?f (activeTasks s))"
      using d(7) unfolding tp by simp
    ultimately show False
      using e(1) by force
  qed
  have q': "taskQueue ?s = ts"
    unfolding dispatch(3) by simp
  have a': "activeTasks ?s = activeTasks s @ [(task_id t, t\<lparr>worker := Some w\<rparr>)]"
    unfolding dispatch(3) using Map_set_absent [OF key] by simp
  have s': "settled ?s = settled s" "promises ?s = promises s"
    unfolding dispatch(3) by simp_all
  have tp': "task_promises ?s = map promise ts @ map ?f (activeTasks s) @ [promise t]"
    by (simp add: task_promises_def q' a')
  show ?thesis
  proof (rule accountedI)
    show "map promise subs = [0..<promises ?s]"
      using d(1) s' by simp
    show "worker u = None" if "u \<in> set subs" for u
      using that d(2) by simp
    show "u \<in> set subs" if "u \<in> set (taskQueue ?s)" for u
      using that d(3) dispatch(1) q' by simp
    show "fst e = task_id (snd e)" if "e \<in> set (activeTasks ?s)" for e
      using that d(4) a' by auto
    show "(snd e)\<lparr>worker := None\<rparr> \<in> set subs" if e: "e \<in> set (activeTasks ?s)" for e
    proof (cases "e \<in> set (activeTasks s)")
      case True
      then show ?thesis by (rule d(5))
    next
      case False
      then have "snd e = t\<lparr>worker := Some w\<rparr>"
        using e a' by simp
      moreover have "t\<lparr>worker := None\<rparr> = t"
        using d(2) [OF t] by simp
      ultimately show ?thesis
        using t by simp
    qed
    show "distinct (map fst (activeTasks ?s))"
      using d(6) key unfolding a' by simp
    show "distinct (task_promises ?s)"
      using d(7) unfolding tp tp' by auto
    show "fst x < promises ?s" if "x \<in> set (settled ?s)" for x
      using that d(8) s' by simp
    show "(promise_state ?s p = None) = (p \<in> set (task_promises ?s))" if "p < promises ?s" for p
    proof -
      have "promise_state ?s p = promise_state s p"
        by (simp add: promise_state_def s')
      moreover have "set (task_promises ?s) = set (task_promises s)"
        unfolding tp tp' by auto
      ultimately show ?thesis
        using d(9) [of p] that s' by simp
    qed
  qed
qed

lemma accounted_message:
  assumes a: "accounted subs s" and i: "distinct (map task_id subs)"
  shows "accounted subs (handleWorkerMessage w data s)"
proof (cases data w s rule: handleWorkerMessage_cases)
  case ready
  have "accounted subs (s\<lparr>readyWorkers := Set_add w (readyWorkers s)\<rparr>)"
    by (rule accounted_frame [OF a]) simp_all
  then show ?thesis
    unfolding ready(2) using i by (rule accounted_processQueue)
next
  case unbound
  have "accounted subs ((set_busy w False s)\<lparr>readyWorkers := Set_add w (readyWorkers s)\<rparr>)"
    by (rule accounted_frame [OF a]) simp_all
  then show ?thesis
    unfolding unbound(3) using i by (rule accounted_processQueue)
next
  case (bound k t)
  let ?v = "if field data ''status'' = Str ''complete'' then Resolve (Obj data)
            else Reject (NewError (field data ''error''))"
  let ?s = "(set_busy w False s)
             \<lparr>readyWorkers := Set_add w (readyWorkers s),
              activeTasks := Map_delete k (activeTasks s),
              settled := settled s @ [(promise t, ?v)]\<rparr>"
  have e: "filter (\<lambda>e. fst e = k) (activeTasks s) = [(k, t)]"
    by (rule bound_entry [OF bound(2) accountedD(6) [OF a]])
  have "accounted subs ?s"
    by (rule accounted_settle [OF a, where P = "\<lambda>e. fst e = k" and v = "\<lambda>e. ?v"])
      (simp_all add: Map_delete_def e)
  then show ?thesis
    unfolding bound(3) using i by (rule accounted_processQueue)
next
  case other
  have "accounted subs (s\<lparr>progress := progress (handleWorkerMessage w data s)\<rparr>)"
    by (rule accounted_frame [OF a]) simp_all
  then show ?thesis
    using other(4) by simp
qed

lemma accounted_step:
  assumes a: "accounted subs s" and i: "distinct (map task_id (subs @ submissions s [e]))"
  shows "accounted (subs @ submissions s [e]) (step s e)"
proof (cases e)
  case Initialize
  have "accounted subs (initialize s)"
    by (rule accounted_frame [OF a]) simp_all
  then show ?thesis using Initialize by simp
next
  case (ProcessImage url cb now rnd)
  let ?t = "new_task url cb now rnd (promises s)"
  have "accounted (subs @ [?t]) (s\<lparr>promises := Suc (promises s), taskQueue := taskQueue s @ [?t]\<rparr>)"
    by (rule accounted_push [OF a])
  moreover have "distinct (map task_id (subs @ [?t]))"
    using i ProcessImage by simp
  ultimately have "accounted (subs @ [?t])
      (processQueue (s\<lparr>promises := Suc (promises s), taskQueue := taskQueue s @ [?t]\<rparr>))"
    by (rule accounted_processQueue)
  then show ?thesis
    using ProcessImage by (simp add: processImage_trigger)
next
  case (WorkerMessage w data)
  have "distinct (map task_id subs)"
    using i by simp
  then show ?thesis
    using WorkerMessage accounted_message [OF a] by simp
next
  case (WorkerError w err)
  have "accounted subs (handleWorkerError w err s)"
    unfolding handleWorkerError_result [OF accountedD(6) [OF a]]
    by (rule accounted_settle [OF a, where P = "\<lambda>e. worker (snd e) = Some w"
          and v = "\<lambda>e. Reject err"]) simp_all
  then show ?thesis using WorkerError by simp
next
  case (RestartTimer w)
  have "accounted subs (restartWorker w (s\<lparr>timers := remove1 w (timers s)\<rparr>))"
    by (rule accounted_frame [OF a]) simp_all
  then show ?thesis using RestartTimer a by simp
next
  case Terminate
  show ?thesis
  proof (cases s rule: terminate_shape)
    case (threw s')
    have "accounted subs s'"
      by (rule accounted_clear [OF a threw(3,4,8,6)])
    then show ?thesis
      using Terminate threw(2) by simp
  next
    case (returned s')
    have "accounted subs s'"
      by (rule accounted_clear [OF a returned(4,5,3,8)])
    then show ?thesis
      using Terminate returned(2) by simp
  qed
qed

lemma accounted_run:
  "accounted subs s \<Longrightarrow> distinct (map task_id (subs @ submissions s es)) \<Longrightarrow>
   accounted (subs @ submissions s es) (run s es)"
proof (induction es arbitrary: s subs)
  case Nil
  then show ?case by (simp add: run_def)
next
  case (Cons e es)
  have d: "distinct (map task_id ((subs @ submissions s [e]) @ submissions (step s e) es))"
    using Cons.prems(2) by (subst (asm) submissions_Cons) simp
  then have "distinct (map task_id (subs @ submissions s [e]))"
    by auto
  then have "accounted (subs @ submissions s [e]) (step s e)"
    by (rule accounted_step [OF Cons.prems(1)])
  from Cons.IH [OF this d]
  have "accounted (subs @ submissions s [e] @ submissions (step s e) es) (run (step s e) es)"
    by simp
  then show ?case
    by (subst submissions_Cons) (simp add: run_def)
qed

lemma accounted_constructor: "accounted [] (constructor m hc)"
  by (simp add: accounted_def constructor_def task_promises_def promise_state_def)

lemma held_once:
  assumes a: "accounted subs s" and t: "t \<in> set subs"
  shows "length (filter (\<lambda>q. q = t) (taskQueue s))
         + length (filter (\<lambda>e. (snd e)\<lparr>worker := None\<rparr> = t) (activeTasks s))
         = (if promise_state s (promise t) = None then 1 else 0)"
proof -
  note d = accountedD [OF a]
  have inj: "inj_on promise (set subs)"
    using distinct_upt [of 0 "promises s"] unfolding d(1) [symmetric] by (simp add: distinct_map)
  have eq: "(u = t) = (promise u = promise t)" if "u \<in> set subs" for u
    using inj_onD [OF inj _ that t] by blast
  have 1: "filter (\<lambda>q. q = t) (taskQueue s) = filter (\<lambda>q. promise q = promise t) (taskQueue s)"
  proof (rule filter_cong [OF refl])
    fix q assume "q \<in> set (taskQueue s)"
    then have "q \<in> set subs" by (rule d(3))
    then show "(q = t) = (promise q = promise t)"
      by (rule eq)
  qed
  have 2: "filter (\<lambda>e. (snd e)\<lparr>worker := None\<rparr> = t) (activeTasks s)
         = filter (\<lambda>e. promise (snd e) = promise t) (activeTasks s)"
  proof (rule filter_cong [OF refl])
    fix e assume "e \<in> set (activeTasks s)"
    then have "(snd e)\<lparr>worker := None\<rparr> \<in> set subs" by (rule d(5))
    then have "((snd e)\<lparr>worker := None\<rparr> = t) = (promise ((snd e)\<lparr>worker := None\<rparr>) = promise t)"
      by (rule eq)
    also have "\<dots> = (promise (snd e) = promise t)"
      by simp
    finally show "((snd e)\<lparr>worker := None\<rparr> = t) = (promise (snd e) = promise t)" .
  qed
  have 3: "length (filter (\<lambda>q. promise q = promise t) (taskQueue s))
         + length (filter (\<lambda>e. promise (snd e) = promise t) (activeTasks s))
         = length (filter (\<lambda>x. x = promise t) (task_promises s))"
    by (simp add: task_promises_def filter_map comp_def)
  have 4: "(promise_state s (promise t) = None) = (promise t \<in> set (task_promises s))"
    by (rule d(9) [OF submitted_smaller [OF d(1) t]])
  show ?thesis
    unfolding 1 2 3 4 by (rule count_distinct [OF d(7)])
qed

text \<open>
  C4, as stated, fails in both halves. Just after \<^verbatim>\<open>initialize\<close>, worker 0 is bound to no
  task and is not in the ready set: a worker enters the ready set only when it reports.
  A worker whose first construction failed is given a task (its error message made it
  ready), builds the pipeline for that task and reports \<^verbatim>\<open>ready\<close> while the task is bound
  to it: then it is in the ready set and bound to an active task. And when two images are
  submitted in the same millisecond with the same random suffix, the two tasks have the
  same id: both are dispatched, the second takes the place of the first in the active map,
  and the first, whose promise is unsettled, is neither in the queue nor in the map
  (its worker is busy, not ready, and bound to no task).
\<close>

theorem ready_iff_unbound_counterexample:
  "Some 0 \<in> set (workers just_initialized)
   \<and> \<not> (0 \<in> set (readyWorkers just_initialized) \<longleftrightarrow> findTaskIdByWorker just_initialized 0 = None)
   \<and> statuses (outbox late_ready_worker)
       = [Str ''initiate'', Str ''progress'', Str ''error'', Str ''error'',
          Str ''initiate'', Str ''progress'', Str ''progress'', Str ''progress'', Str ''ready'']
   \<and> pending late_ready_worker = [(TaskBranch (Str ''photo.png''), AwaitImage (Some 1) (Some 2))]
   \<and> Some 0 \<in> set (workers late_ready)
   \<and> \<not> (0 \<in> set (readyWorkers late_ready) \<longleftrightarrow> findTaskIdByWorker late_ready 0 = None)
   \<and> orderly_run (constructor 2 (Some 8)) same_id_twice
   \<and> map promise (submissions (constructor 2 (Some 8)) same_id_twice) = [0, 1]
   \<and> map task_id (submissions (constructor 2 (Some 8)) same_id_twice)
       = [''task_1700000000000_a'', ''task_1700000000000_a'']
   \<and> dispatches (run (constructor 2 (Some 8)) same_id_twice)
       = [(0, Str ''task_1700000000000_a''), (1, Str ''task_1700000000000_a'')]
   \<and> promise_state (run (constructor 2 (Some 8)) same_id_twice) 0 = None
   \<and> taskQueue (run (constructor 2 (Some 8)) same_id_twice) = []
   \<and> map fst (activeTasks (run (constructor 2 (Some 8)) same_id_twice)) = [''task_1700000000000_a'']
   \<and> task_promises (run (constructor 2 (Some 8)) same_id_twice) = [1]
   \<and> \<not> (0 \<in> set (readyWorkers (run (constructor 2 (Some 8)) same_id_twice))
          \<longleftrightarrow> findTaskIdByWorker (run (constructor 2 (Some 8)) same_id_twice) 0 = None)"
  by code_simp

text \<open>
  C4, amended: in every state that a new pool reaches by a run, no task is in both the queue
  and the active map or twice in one of them. When the ids of the submitted tasks are
  pairwise different, every submitted task whose promise is unsettled is in exactly one of
  the queue and the active map, once, and every submitted task whose promise is settled is
  in neither; the queue holds only submitted tasks, and the active map holds only submitted
  tasks, each under its id and with the worker it was given. When no worker reports
  \<^verbatim>\<open>ready\<close> while a task is bound to it, no two active tasks are bound to the same worker
  and every worker in the ready set is bound to no active task. A worker bound to no task
  need not be in the ready set.
\<close>

theorem tasks_held_once_and_ready_workers_unbound:
  "(let s = run (constructor m hc) es
    in distinct (map promise (taskQueue s @ map snd (activeTasks s))))
   \<and> (distinct (map task_id (submissions (constructor m hc) es)) \<longrightarrow>
       (let s = run (constructor m hc) es;
            subs = submissions (constructor m hc) es
        in distinct (map promise subs)
         \<and> (\<forall>t \<in> set subs.
              length (filter (\<lambda>q. q = t) (taskQueue s))
              + length (filter (\<lambda>e. (snd e)\<lparr>worker := None\<rparr> = t) (activeTasks s))
              = (if promise_state s (promise t) = None then 1 else 0))
         \<and> (\<forall>q \<in> set (taskQueue s). q \<in> set subs)
         \<and> (\<forall>e \<in> set (activeTasks s).
              fst e = task_id (snd e) \<and> (snd e)\<lparr>worker := None\<rparr> \<in> set subs)))
   \<and> (orderly_run (constructor m hc) es \<longrightarrow>
       (let s = run (constructor m hc) es
        in distinct (map (\<lambda>e. worker (snd e)) (activeTasks s))
         \<and> (\<forall>w \<in> set (readyWorkers s). findTaskIdByWorker s w = None)))"
proof -
  define s where "s = run (constructor m hc) es"
  define subs where "subs = submissions (constructor m hc) es"
  have "fresh_promises s"
    unfolding s_def by (rule fresh_promises_run [OF fresh_promises_constructor])
  then have 1: "distinct (map promise (taskQueue s @ map snd (activeTasks s)))"
    by (simp add: fresh_promises_def task_promises_def)
  have 2: "distinct (map promise subs)
         \<and> (\<forall>t \<in> set subs.
              length (filter (\<lambda>q. q = t) (taskQueue s))
              + length (filter (\<lambda>e. (snd e)\<lparr>worker := None\<rparr> = t) (activeTasks s))
              = (if promise_state s (promise t) = None then 1 else 0))
         \<and> (\<forall>q \<in> set (taskQueue s). q \<in> set subs)
         \<and> (\<forall>e \<in> set (activeTasks s).
              fst e = task_id (snd e) \<and> (snd e)\<lparr>worker := None\<rparr> \<in> set subs)"
    if i: "distinct (map task_id subs)"
  proof -
    have "accounted ([] @ submissions (constructor m hc) es) (run (constructor m hc) es)"
      by (rule accounted_run [OF accounted_constructor]) (use i in \<open>simp add: subs_def\<close>)
    then have a: "accounted subs s"
      by (simp add: subs_def s_def)
    note d = accountedD [OF a]
    have "distinct (map promise subs)"
      unfolding d(1) by simp
    moreover have "\<forall>t \<in> set subs.
              length (filter (\<lambda>q. q = t) (taskQueue s))
              + length (filter (\<lambda>e. (snd e)\<lparr>worker := None\<rparr> = t) (activeTasks s))
              = (if promise_state s (promise t) = None then 1 else 0)"
      using held_once [OF a] by blast
    moreover have "\<forall>q \<in> set (taskQueue s). q \<in> set subs"
      using d(3) by blast
    moreover have "\<forall>e \<in> set (activeTasks s).
              fst e = task_id (snd e) \<and> (snd e)\<lparr>worker := None\<rparr> \<in> set subs"
      using d(4) d(5) by blast
    ultimately show ?thesis
      by (intro conjI)
  qed
  have 3: "distinct (map (\<lambda>e. worker (snd e)) (activeTasks s))
         \<and> (\<forall>w \<in> set (readyWorkers s). findTaskIdByWorker s w = None)"
    if o: "orderly_run (constructor m hc) es"
  proof -
    have i: "one_task_each s"
      unfolding s_def by (rule one_task_each_run [OF one_task_each_constructor o])
    then have "distinct (map (\<lambda>e. worker (snd e)) (activeTasks s))"
      by (simp add: one_task_each_def bound_workers_def)
    moreover have "\<forall>w \<in> set (readyWorkers s). findTaskIdByWorker s w = None"
      using i by (simp add: one_task_each_def unbound_iff)
    ultimately show ?thesis
      by (intro conjI)
  qed
  show ?thesis
    unfolding Let_def s_def [symmetric] subs_def [symmetric] using 1 2 3 by blast
qed

theorem tasks_held_once_and_ready_workers_unbound_witness:
  "distinct (map task_id (submissions (constructor 2 (Some 8)) two_done))
   \<and> orderly_run (constructor 2 (Some 8)) two_done
   \<and> map promise (submissions (constructor 2 (Some 8)) two_done) = [0, 1, 2]
   \<and> readyWorkers (run (constructor 2 (Some 8)) two_done) = [1]
   \<and> promise_state (run (constructor 2 (Some 8)) two_done) 0 = Some (Resolve (Obj done_message))
   \<and> promise_state (run (constructor 2 (Some 8)) two_done) 2 = None
   \<and> length (filter (\<lambda>q. q = submissions (constructor 2 (Some 8)) two_done ! 0)
         (taskQueue (run (constructor 2 (Some 8)) two_done)))
     + length (filter (\<lambda>e. (snd e)\<lparr>worker := None\<rparr> = submissions (constructor 2 (Some 8)) two_done ! 0)
         (activeTasks (run (constructor 2 (Some 8)) two_done))) = 0
   \<and> length (filter (\<lambda>q. q = submissions (constructor 2 (Some 8)) two_done ! 2)
         (taskQueue (run (constructor 2 (Some 8)) two_done)))
     + length (filter (\<lambda>e. (snd e)\<lparr>worker := None\<rparr> = submissions (constructor 2 (Some 8)) two_done ! 2)
         (activeTasks (run (constructor 2 (Some 8)) two_done))) = 1
   \<and> findTaskIdByWorker (run (constructor 2 (Some 8)) two_done) 1 = None"
proof -
  define s where "s = run (constructor 2 (Some 8)) two_done"
  define subs where "subs = submissions (constructor 2 (Some 8)) two_done"
  have h1: "distinct (map task_id (submissions (constructor 2 (Some 8)) two_done))"
    by code_simp
  have h2: "orderly_run (constructor 2 (Some 8)) two_done"
    by code_simp
  have v: "map promise (submissions (constructor 2 (Some 8)) two_done) = [0, 1, 2]"
    "readyWorkers (run (constructor 2 (Some 8)) two_done) = [1]"
    "promise_state (run (constructor 2 (Some 8)) two_done) 0 = Some (Resolve (Obj done_message))"
    "promise_state (run (constructor 2 (Some 8)) two_done) 2 = None"
    by code_simp+
  have m: "submissions (constructor 2 (Some 8)) two_done ! 0
             \<in> set (submissions (constructor 2 (Some 8)) two_done)"
    "submissions (constructor 2 (Some 8)) two_done ! 2
             \<in> set (submissions (constructor 2 (Some 8)) two_done)"
    "promise (submissions (constructor 2 (Some 8)) two_done ! 0) = 0"
    "promise (submissions (constructor 2 (Some 8)) two_done ! 2) = 2"
    by code_simp+
  note t = tasks_held_once_and_ready_workers_unbound [of 2 "Some 8" two_done,
      unfolded Let_def s_def [symmetric] subs_def [symmetric]]
  from t h1 have c: "\<forall>t \<in> set subs.
       length (filter (\<lambda>q. q = t) (taskQueue s))
       + length (filter (\<lambda>e. (snd e)\<lparr>worker := None\<rparr> = t) (activeTasks s))
       = (if promise_state s (promise t) = None then 1 else 0)"
    unfolding subs_def by blast
  from t h2 have r: "\<forall>w \<in> set (readyWorkers s). findTaskIdByWorker s w = None"
    by blast
  have c0: "length (filter (\<lambda>q. q = subs ! 0) (taskQueue s))
       + length (filter (\<lambda>e. (snd e)\<lparr>worker := None\<rparr> = subs ! 0) (activeTasks s)) = 0"
    using c [rule_format, of "subs ! 0"] m(1,3) v(3) unfolding s_def subs_def by simp
  have c2: "length (filter (\<lambda>q. q = subs ! 2) (taskQueue s))
       + length (filter (\<lambda>e. (snd e)\<lparr>worker := None\<rparr> = subs ! 2) (activeTasks s)) = 1"
    using c [rule_format, of "subs ! 2"] m(2,4) v(4) unfolding s_def subs_def by simp
  have r1: "findTaskIdByWorker s 1 = None"
    using r v(2) unfolding s_def by simp
  show ?thesis
    unfolding s_def [symmetric] subs_def [symmetric]
    using h1 h2 v c0 c2 r1 unfolding s_def subs_def by (intro conjI)
qed

end
